theory Spec2Isabelle
  imports Complex_Main
begin

section \<open>JavaScript values\<close>

text \<open>
  The library is TypeScript; at run time its functions receive arbitrary JavaScript
  values. A number is an IEEE double: \<open>NaN\<close>, the two infinities, or a finite value.
  Every finite double is a rational, so \<open>Fin q\<close> carries the exact value; \<open>Fin 0\<close>
  stands for both zeros, which no operator used by the library tells apart.
\<close>

datatype jsnum = NaN | PosInf | NegInf | Fin rat

text \<open>
  How a function was written. \<open>Function.prototype.toString\<close> returns the source text of
  the definition: the flag says whether the definition carries the \<open>async\<close> keyword,
  the string is the text that follows the keywords.
\<close>

datatype fdecl =
    FunctionForm bool string  \<comment> \<open>\<open>[async] function\<close> followed by the text\<close>
  | ArrowForm bool string     \<comment> \<open>\<open>[async] params => body\<close>\<close>
  | MethodForm bool string    \<comment> \<open>\<open>[async] name(params) { body }\<close> in an object or class\<close>
  | ClassForm string          \<comment> \<open>\<open>class\<close> followed by the text\<close>
  | NativeForm string         \<comment> \<open>built-in or bound function of that name\<close>

datatype exn = TypeError | UserError

text \<open>
  Objects carry their reference (strict equality compares references). A function object
  has its definition, its own properties, and what a call of it does: the value it returns
  or the fact that it throws.
\<close>

datatype jsval =
    JUndefined
  | JNull
  | JBool bool
  | JNum jsnum
  | JStr string
  | JSymbol nat
  | JBigInt int
  | JObj nat obj
and obj =
    Array "jsval list"
  | Promise
  | Function fdecl "(string \<times> jsval) list" completion
  | Ordinary "(string \<times> jsval) list"
and completion =
    Returns jsval
  | Throws exn

fun typeof :: "jsval \<Rightarrow> string" where
  "typeof JUndefined = ''undefined''"
| "typeof JNull = ''object''"
| "typeof (JBool _) = ''boolean''"
| "typeof (JNum _) = ''number''"
| "typeof (JStr _) = ''string''"
| "typeof (JSymbol _) = ''symbol''"
| "typeof (JBigInt _) = ''bigint''"
| "typeof (JObj _ (Function _ _ _)) = ''function''"
| "typeof (JObj _ _) = ''object''"

text \<open>\<open>isNaN\<close>, \<open>Number.isInteger\<close>, \<open>>=\<close> and \<open><\<close> on numbers.\<close>

fun isNaN :: "jsnum \<Rightarrow> bool" where
  "isNaN NaN = True"
| "isNaN _ = False"

fun Number_isInteger :: "jsnum \<Rightarrow> bool" where
  "Number_isInteger (Fin q) = (q = of_int \<lfloor>q\<rfloor>)"
| "Number_isInteger _ = False"

fun num_ge :: "jsnum \<Rightarrow> jsnum \<Rightarrow> bool" where
  "num_ge NaN _ = False"
| "num_ge _ NaN = False"
| "num_ge PosInf _ = True"
| "num_ge _ NegInf = True"
| "num_ge NegInf _ = False"
| "num_ge _ PosInf = False"
| "num_ge (Fin p) (Fin q) = (q \<le> p)"

fun num_lt :: "jsnum \<Rightarrow> jsnum \<Rightarrow> bool" where
  "num_lt NaN _ = False"
| "num_lt _ NaN = False"
| "num_lt PosInf _ = False"
| "num_lt _ NegInf = False"
| "num_lt NegInf _ = True"
| "num_lt _ PosInf = True"
| "num_lt (Fin p) (Fin q) = (p < q)"

section \<open>Type predicates\<close>

text \<open>
  \<^verbatim>\<open>
  export const isIndexOf = <T>(idx: unknown | number, array: ArrayLike<T>) => {
      if (typeof idx === 'string' && idx) idx = Number(idx)
      return typeof idx === 'number' && !isNaN(idx) && Number.isInteger(idx)
          && idx >= 0 && idx < array.length;
  }
  \<close>
  \<open>Number\<close> applied to a string is the host's string-to-number conversion, which rounds
  to a double; it is the parameter \<open>Number\<close>. The array-like is a list, its \<open>length\<close> the
  length of the list. A string is truthy iff it is not empty.
\<close>

definition isIndexOf :: "(string \<Rightarrow> jsnum) \<Rightarrow> jsval \<Rightarrow> 'a list \<Rightarrow> completion" where
  "isIndexOf Number idx0 array =
     (let idx = (case idx0 of
                   JStr s \<Rightarrow> if s \<noteq> [] then JNum (Number s) else idx0
                 | _ \<Rightarrow> idx0)
      in Returns (JBool
           (case idx of
              JNum n \<Rightarrow> \<not> isNaN n \<and> Number_isInteger n \<and> num_ge n (Fin 0)
                         \<and> num_lt n (Fin (of_nat (length array)))
            | _ \<Rightarrow> False)))"

text \<open>
  \<^verbatim>\<open>
  export const isArray = (array: unknown) => Array.isArray(array);
  export const isIndexable = (array: unknown) => Array.isArray(array) && array.length != 0;
  export const isString = (value: unknown) => typeof value === 'string';
  export const isNumber = (value: unknown) => typeof value === 'number';
  export function isPromise(obj: unknown) { return obj instanceof Promise }
  \<close>
\<close>

fun Array_isArray :: "jsval \<Rightarrow> bool" where
  "Array_isArray (JObj _ (Array _)) = True"
| "Array_isArray _ = False"

fun instanceof_Promise :: "jsval \<Rightarrow> bool" where
  "instanceof_Promise (JObj _ Promise) = True"
| "instanceof_Promise _ = False"

definition isArray :: "jsval \<Rightarrow> completion" where
  "isArray array = Returns (JBool (Array_isArray array))"

definition isIndexable :: "jsval \<Rightarrow> completion" where
  "isIndexable array =
     Returns (JBool (case array of
                       JObj _ (Array xs) \<Rightarrow> length xs \<noteq> 0
                     | _ \<Rightarrow> False))"

definition isString :: "jsval \<Rightarrow> completion" where
  "isString v = Returns (JBool (typeof v = ''string''))"

definition isNumber :: "jsval \<Rightarrow> completion" where
  "isNumber v = Returns (JBool (typeof v = ''number''))"

definition isPromise :: "jsval \<Rightarrow> completion" where
  "isPromise obj = Returns (JBool (instanceof_Promise obj))"

text \<open>
  \<^verbatim>\<open>
  export function isAsyncFunction(func: unknown) {
      return typeof func === 'function' && func?.toString().startsWith('async')
  }
  \<close>
  \<open>func.toString\<close> is looked up on the function object: an own property \<open>toString\<close>
  shadows the inherited \<open>Function.prototype.toString\<close>, which returns the source text.
  The value found is called; calling anything but a function raises \<open>TypeError\<close>.
  \<open>startsWith\<close> is then looked up on the result: a string has
  \<open>String.prototype.startsWith\<close>; \<open>undefined\<close> and \<open>null\<close> have no properties; the
  other primitives, arrays and promises inherit no such method; an object may own one.
  \<open>a && b\<close> evaluates to \<open>b\<close> when \<open>a\<close> is true.
\<close>

fun source_text :: "fdecl \<Rightarrow> string" where
  "source_text (FunctionForm a rest) = (if a then ''async '' else []) @ ''function'' @ rest"
| "source_text (ArrowForm a rest) = (if a then ''async '' else []) @ rest"
| "source_text (MethodForm a rest) = (if a then ''async '' else []) @ rest"
| "source_text (ClassForm rest) = ''class'' @ rest"
| "source_text (NativeForm name) = ''function '' @ name @ ''() { [native code] }''"

fun declared_async :: "fdecl \<Rightarrow> bool" where
  "declared_async (FunctionForm a _) = a"
| "declared_async (ArrowForm a _) = a"
| "declared_async (MethodForm a _) = a"
| "declared_async (ClassForm _) = False"
| "declared_async (NativeForm _) = False"

definition startsWith :: "string \<Rightarrow> string \<Rightarrow> bool" where
  "startsWith s p = (take (length p) s = p)"

fun call :: "jsval \<Rightarrow> completion" where
  "call (JObj _ (Function _ _ c)) = c"
| "call _ = Throws TypeError"

fun own_props :: "obj \<Rightarrow> (string \<times> jsval) list" where
  "own_props (Function _ ps _) = ps"
| "own_props (Ordinary ps) = ps"
| "own_props _ = []"

definition toString_call :: "fdecl \<Rightarrow> (string \<times> jsval) list \<Rightarrow> completion" where
  "toString_call d ps =
     (case map_of ps ''toString'' of
        None \<Rightarrow> Returns (JStr (source_text d))
      | Some m \<Rightarrow> call m)"

fun startsWith_call :: "jsval \<Rightarrow> string \<Rightarrow> completion" where
  "startsWith_call (JStr s) p = Returns (JBool (startsWith s p))"
| "startsWith_call (JObj _ ob) p =
     (case map_of (own_props ob) ''startsWith'' of
        None \<Rightarrow> Throws TypeError
      | Some m \<Rightarrow> call m)"
| "startsWith_call _ p = Throws TypeError"

definition isAsyncFunction :: "jsval \<Rightarrow> completion" where
  "isAsyncFunction func =
     (if typeof func = ''function'' then
        (case func of
           JObj _ (Function d ps _) \<Rightarrow>
             (case toString_call d ps of
                Throws e \<Rightarrow> Throws e
              | Returns r \<Rightarrow> startsWith_call r ''async'')
         | _ \<Rightarrow> Returns (JBool False))
      else Returns (JBool False))"

section \<open>Array helpers\<close>

text \<open>
  Strict equality \<open>===\<close>: numbers by value with \<open>NaN\<close> unequal to everything, objects by
  reference, the other primitives by value. \<open>SameValueZero\<close>, the comparison of \<open>Set\<close>,
  differs only in \<open>NaN\<close>, which it takes equal to itself.
\<close>

fun strict_eq :: "jsval \<Rightarrow> jsval \<Rightarrow> bool" where
  "strict_eq (JNum x) (JNum y) = (\<not> isNaN x \<and> x = y)"
| "strict_eq (JObj r _) (JObj r' _) = (r = r')"
| "strict_eq a b = (a = b)"

fun same_value_zero :: "jsval \<Rightarrow> jsval \<Rightarrow> bool" where
  "same_value_zero (JNum x) (JNum y) = (x = y)"
| "same_value_zero (JObj r _) (JObj r' _) = (r = r')"
| "same_value_zero a b = (a = b)"

text \<open>
  \<open>array.indexOf(item)\<close>: the first index whose element is strictly equal to the item,
  or \<open>-1\<close>.
\<close>

fun indexOf_from :: "int \<Rightarrow> jsval list \<Rightarrow> jsval \<Rightarrow> int" where
  "indexOf_from k [] item = - 1"
| "indexOf_from k (x # xs) item = (if strict_eq item x then k else indexOf_from (k + 1) xs item)"

definition indexOf :: "jsval list \<Rightarrow> jsval \<Rightarrow> int" where
  "indexOf array item = indexOf_from 0 array item"

text \<open>
  \<open>array.splice(start, deleteCount)\<close>: a negative start counts from the end, the start
  is clamped to the array, the count to what is left. It returns the removed elements;
  the second component is the array afterwards.
\<close>

definition splice_js :: "'a list \<Rightarrow> int \<Rightarrow> int \<Rightarrow> 'a list \<times> 'a list" where
  "splice_js array start deleteCount =
     (let len = int (length array);
          actualStart = (if start < 0 then max (len + start) 0 else min start len);
          actualDeleteCount = min (max deleteCount 0) (len - actualStart);
          i = nat actualStart; n = nat actualDeleteCount
      in (take n (drop i array), take i array @ drop (i + n) array))"

text \<open>
  \<^verbatim>\<open>
  export const remove = <T>(item: T, array: T[]): T[] => {
      const idx = array.indexOf(item);
      return array.splice(idx, 1);
  }
  \<close>
\<close>

definition remove :: "jsval \<Rightarrow> jsval list \<Rightarrow> jsval list \<times> jsval list" where
  "remove item array = (let idx = indexOf array item in splice_js array idx 1)"

text \<open>
  \<^verbatim>\<open>
  export const unique = <T>(array: T[]): T[] => Array.from(new Set(array));
  \<close>
  A \<open>Set\<close> keeps its elements in insertion order; adding a value that is already there
  (\<open>SameValueZero\<close>) changes nothing. \<open>Array.from\<close> lists the elements in that order.
\<close>

definition Set_add :: "jsval list \<Rightarrow> jsval \<Rightarrow> jsval list" where
  "Set_add s v = (if list_ex (\<lambda>u. same_value_zero u v) s then s else s @ [v])"

definition new_Set :: "jsval list \<Rightarrow> jsval list" where
  "new_Set array = foldl Set_add [] array"

definition unique :: "jsval list \<Rightarrow> jsval list" where
  "unique array = new_Set array"

text \<open>
  \<^verbatim>\<open>
  export const arraysEqual = <T>(a: T[], b: T[]): boolean =>
      a.length === b.length && a.every((v, i) => v === b[i]);
  \<close>
  \<open>b[i]\<close> beyond the end is \<open>undefined\<close>.
\<close>

definition index :: "jsval list \<Rightarrow> nat \<Rightarrow> jsval" where
  "index b i = (if i < length b then b ! i else JUndefined)"

definition every :: "(jsval \<Rightarrow> nat \<Rightarrow> bool) \<Rightarrow> jsval list \<Rightarrow> bool" where
  "every f a = list_all (\<lambda>(i, v). f v i) (enumerate 0 a)"

definition arraysEqual :: "jsval list \<Rightarrow> jsval list \<Rightarrow> bool" where
  "arraysEqual a b = (length a = length b \<and> every (\<lambda>v i. strict_eq v (index b i)) a)"

section \<open>Timers, throttle and debounce\<close>

text \<open>
  The host runs one task at a time and keeps a list of pending timers. Time is counted in
  whole milliseconds, and so is \<open>delay\<close>. A call of a wrapper takes no time.

  The wrapped \<open>fn\<close> is the caller's code. A call of it is recorded in \<open>calls\<close>; while it
  runs it may call wrappers, this one or others, and it ends by returning or by throwing.
  An exception of a wrapper call made inside \<open>fn\<close> ends \<open>fn\<close> with that exception.
\<close>

datatype fn_result = Normal | Raises

datatype 'a behaviour =
  Behaviour (inner: "(nat \<times> 'a) list") (outcome: fn_result)
  \<comment> \<open>the wrapper calls \<open>fn\<close> makes, in order, and how it ends\<close>

datatype 'a callback =
    ClearTimer nat      \<comment> \<open>\<open>() => { timer = null }\<close> of that throttle wrapper\<close>
  | InvokeFn nat 'a     \<comment> \<open>\<open>() => { fn(...args) }\<close> of that debounce wrapper\<close>

fun owner :: "'a callback \<Rightarrow> nat" where
  "owner (ClearTimer w) = w"
| "owner (InvokeFn w _) = w"

record 'a task =
  tid :: nat
  due :: nat
  cb :: "'a callback"

datatype kind = Throttle | Debounce

text \<open>The closure made by one call of \<open>throttle\<close> or \<open>debounce\<close>, with its own \<open>timer\<close>.\<close>

record 'a wrapper =
  kind :: kind
  fn :: "'a \<Rightarrow> 'a behaviour"
  delay :: nat
  timer :: "nat option"

text \<open>
  \<open>stack\<close> is the depth of wrapper calls inside wrapped functions that the host's call
  stack has room for; a call beyond it raises \<open>RangeError\<close>.
\<close>

record 'a system =
  now :: nat
  next_id :: nat
  pending :: "'a task list"
  wrappers :: "'a wrapper list"
  calls :: "(nat \<times> 'a) list"
  stack :: nat


text \<open>
  \<open>setTimeout\<close> hands out a fresh positive handle and appends a task. The host (Node's
  timers) keeps a delay from 1 to \<open>2^31 - 1\<close> ms and replaces every other delay by 1 ms.
  \<open>clearTimeout\<close> drops the task with that handle, if any.
\<close>

definition TIMEOUT_MAX :: nat where
  "TIMEOUT_MAX = 2147483647"

definition host_delay :: "nat \<Rightarrow> nat" where
  "host_delay d = (if 1 \<le> d \<and> d \<le> TIMEOUT_MAX then d else 1)"

definition setTimeout :: "'a callback \<Rightarrow> nat \<Rightarrow> 'a system \<Rightarrow> nat \<times> 'a system" where
  "setTimeout c d s =
     (next_id s,
      s\<lparr>next_id := Suc (next_id s),
        pending := pending s @ [\<lparr>tid = next_id s, due = now s + host_delay d, cb = c\<rparr>]\<rparr>)"

definition clearTimeout :: "nat \<Rightarrow> 'a system \<Rightarrow> 'a system" where
  "clearTimeout h s = s\<lparr>pending := filter (\<lambda>t. tid t \<noteq> h) (pending s)\<rparr>"

text \<open>A handle is truthy unless it is \<open>null\<close> or the number zero.\<close>

definition truthy :: "nat option \<Rightarrow> bool" where
  "truthy t = (case t of None \<Rightarrow> False | Some h \<Rightarrow> h \<noteq> 0)"

definition set_timer :: "nat \<Rightarrow> nat option \<Rightarrow> 'a system \<Rightarrow> 'a system" where
  "set_timer w t s = s\<lparr>wrappers := (wrappers s)[w := (wrappers s ! w)\<lparr>timer := t\<rparr>]\<rparr>"

text \<open>
  The wrapper calls that \<open>fn\<close> makes, run one after the other by \<open>f\<close>; the first
  exception ends them.
\<close>

fun nested ::
  "(nat \<Rightarrow> 'a \<Rightarrow> 'a system \<Rightarrow> fn_result \<times> 'a system) \<Rightarrow> (nat \<times> 'a) list \<Rightarrow> 'a system
     \<Rightarrow> fn_result \<times> 'a system" where
  "nested f [] s = (Normal, s)"
| "nested f ((w, a) # cs) s =
     (case f w a s of
        (Raises, s1) \<Rightarrow> (Raises, s1)
      | (Normal, s1) \<Rightarrow> nested f cs s1)"

text \<open>\<open>fn(...args)\<close> of wrapper \<open>w\<close>, where \<open>f\<close> runs the wrapper calls made inside.\<close>

definition invoke ::
  "(nat \<Rightarrow> 'a \<Rightarrow> 'a system \<Rightarrow> fn_result \<times> 'a system) \<Rightarrow> nat \<Rightarrow> 'a \<Rightarrow> 'a system
     \<Rightarrow> fn_result \<times> 'a system" where
  "invoke f w args s =
     (let b = fn (wrappers s ! w) args;
          s1 = s\<lparr>calls := calls s @ [(w, args)]\<rparr>
      in case nested f (inner b) s1 of
           (Raises, s2) \<Rightarrow> (Raises, s2)
         | (Normal, s2) \<Rightarrow> (outcome b, s2))"

text \<open>
  \<^verbatim>\<open>
  export const throttle = (fn, delay) => {
      let timer = null;
      return (...args) => {
          if (!timer) {
              fn(...args);
              timer = setTimeout(() => { timer = null; }, delay);
          }
      }
  }
  \<close>
  \<open>throttle\<close> allocates the closure and returns its index; \<open>throttled f w\<close> is the body
  of closure \<open>w\<close>. \<open>timer\<close> is read before \<open>fn\<close> runs and assigned after it has
  returned; when \<open>fn\<close> throws, the rest of the body does not run.
\<close>

definition throttle :: "('a \<Rightarrow> 'a behaviour) \<Rightarrow> nat \<Rightarrow> 'a system \<Rightarrow> nat \<times> 'a system" where
  "throttle f d s =
     (length (wrappers s),
      s\<lparr>wrappers := wrappers s @ [\<lparr>kind = Throttle, fn = f, delay = d, timer = None\<rparr>]\<rparr>)"

definition throttled ::
  "(nat \<Rightarrow> 'a \<Rightarrow> 'a system \<Rightarrow> fn_result \<times> 'a system) \<Rightarrow> nat \<Rightarrow> 'a \<Rightarrow> 'a system
     \<Rightarrow> fn_result \<times> 'a system" where
  "throttled f w args s =
     (if \<not> truthy (timer (wrappers s ! w)) then
        (case invoke f w args s of
           (Raises, s1) \<Rightarrow> (Raises, s1)
         | (Normal, s1) \<Rightarrow>
             (let (h, s2) = setTimeout (ClearTimer w) (delay (wrappers s1 ! w)) s1
              in (Normal, set_timer w (Some h) s2)))
      else (Normal, s))"

text \<open>
  \<^verbatim>\<open>
  export const debounce = (fn, delay) => {
      let timer = null;
      return (...args) => {
          if (timer) { clearTimeout(timer); }
          timer = setTimeout(() => { fn(...args); }, delay);
      }
  }
  \<close>
\<close>

definition debounce :: "('a \<Rightarrow> 'a behaviour) \<Rightarrow> nat \<Rightarrow> 'a system \<Rightarrow> nat \<times> 'a system" where
  "debounce f d s =
     (length (wrappers s),
      s\<lparr>wrappers := wrappers s @ [\<lparr>kind = Debounce, fn = f, delay = d, timer = None\<rparr>]\<rparr>)"

definition debounced :: "nat \<Rightarrow> 'a \<Rightarrow> 'a system \<Rightarrow> fn_result \<times> 'a system" where
  "debounced w args s =
     (let c = wrappers s ! w;
          s1 = (if truthy (timer c) then clearTimeout (the (timer c)) s else s);
          (h, s2) = setTimeout (InvokeFn w args) (delay c) s1
      in (Normal, set_timer w (Some h) s2))"

text \<open>
  A call of wrapper \<open>w\<close>. \<open>call_at k\<close> is a call with room for \<open>k\<close> more levels of
  wrapper calls inside wrapped functions; \<open>call_wrapper\<close> is a call by the program, with
  the whole stack. A call of a wrapper that has not been made throws, as a call of
  \<open>undefined\<close> does.
\<close>

definition overflow :: "nat \<Rightarrow> 'a \<Rightarrow> 'a system \<Rightarrow> fn_result \<times> 'a system" where
  "overflow w args s = (Raises, s)"

definition dispatch ::
  "(nat \<Rightarrow> 'a \<Rightarrow> 'a system \<Rightarrow> fn_result \<times> 'a system) \<Rightarrow> nat \<Rightarrow> 'a \<Rightarrow> 'a system
     \<Rightarrow> fn_result \<times> 'a system" where
  "dispatch f w args s =
     (if w < length (wrappers s) then
        (case kind (wrappers s ! w) of
           Throttle \<Rightarrow> throttled f w args s
         | Debounce \<Rightarrow> debounced w args s)
      else (Raises, s))"

primrec call_at :: "nat \<Rightarrow> nat \<Rightarrow> 'a \<Rightarrow> 'a system \<Rightarrow> fn_result \<times> 'a system" where
  "call_at 0 = dispatch overflow"
| "call_at (Suc k) = dispatch (call_at k)"

definition call_wrapper :: "nat \<Rightarrow> 'a \<Rightarrow> 'a system \<Rightarrow> fn_result \<times> 'a system" where
  "call_wrapper w args s = call_at (stack s) w args s"

text \<open>
  Running a timer callback. An exception of \<open>fn\<close> inside a timer callback goes to the
  host; what \<open>fn\<close> did before stays done.
\<close>

fun run_callback :: "'a callback \<Rightarrow> 'a system \<Rightarrow> 'a system" where
  "run_callback (ClearTimer w) s = set_timer w None s"
| "run_callback (InvokeFn w args) s = snd (invoke (call_at (stack s)) w args s)"

text \<open>The task to fire next: the least due time, the older task on a tie.\<close>

fun earliest :: "'a task list \<Rightarrow> 'a task option" where
  "earliest [] = None"
| "earliest (t # ts) =
     (case earliest ts of
        None \<Rightarrow> Some t
      | Some u \<Rightarrow> if due u < due t then Some u else Some t)"

definition fire :: "'a task \<Rightarrow> 'a system \<Rightarrow> 'a system" where
  "fire t s =
     run_callback (cb t)
       (s\<lparr>now := max (now s) (due t), pending := filter (\<lambda>u. tid u \<noteq> tid t) (pending s)\<rparr>)"

text \<open>
  Let time pass until \<open>target\<close> on a host that is not busy: every task that is due by
  then fires, at its due time, the earliest first, also the tasks scheduled meanwhile.
  This ends, since a task scheduled by a callback is due at least 1 ms later.
\<close>

function advance :: "nat \<Rightarrow> 'a system \<Rightarrow> 'a system" where
  "advance target s =
     (case earliest (filter (\<lambda>t. due t \<le> target) (pending s)) of
        None \<Rightarrow> s\<lparr>now := max (now s) target\<rparr>
      | Some t \<Rightarrow> advance target (fire t s))"
  by pat_completeness auto
termination
proof (relation "measures
    [\<lambda>(target, s). case earliest (filter (\<lambda>t. due t \<le> target) (pending s)) of
                       None \<Rightarrow> 0 | Some t \<Rightarrow> Suc target - due t,
     \<lambda>(target, s). case earliest (filter (\<lambda>t. due t \<le> target) (pending s)) of
                       None \<Rightarrow> 0 | Some t \<Rightarrow> length (filter (\<lambda>u. due u \<le> due t) (pending s))]")
  show "wf (measures
    [\<lambda>(target, s :: 'a system). case earliest (filter (\<lambda>t. due t \<le> target) (pending s)) of
                       None \<Rightarrow> 0 | Some t \<Rightarrow> Suc target - due t,
     \<lambda>(target, s). case earliest (filter (\<lambda>t. due t \<le> target) (pending s)) of
                       None \<Rightarrow> 0 | Some t \<Rightarrow> length (filter (\<lambda>u. due u \<le> due t) (pending s))])"
    by simp
next
  fix target :: nat and s :: "'a system" and t :: "'a task"
  assume e: "earliest (filter (\<lambda>t. due t \<le> target) (pending s)) = Some t"
  define cnt :: "nat \<Rightarrow> 'a system \<Rightarrow> nat"
    where "cnt m x = length (filter (\<lambda>u. due u \<le> m) (pending x))" for m x
  define Q :: "(nat \<Rightarrow> 'a \<Rightarrow> 'a system \<Rightarrow> fn_result \<times> 'a system) \<Rightarrow> bool"
    where "Q f \<longleftrightarrow> (\<forall>v a x. now (snd (f v a x)) = now x
              \<and> (\<forall>m \<le> now x. cnt m (snd (f v a x)) \<le> cnt m x))" for f
  have none: "earliest ts = None \<Longrightarrow> ts = []" for ts :: "'a task list"
    by (cases ts) (auto split: option.splits if_splits)
  have mem: "earliest ts = Some u \<Longrightarrow> u \<in> set ts \<and> (\<forall>v \<in> set ts. due u \<le> due v)"
    for ts :: "'a task list" and u
  proof (induction ts arbitrary: u)
    case Nil
    then show ?case by simp
  next
    case (Cons a ts)
    show ?case
    proof (cases "earliest ts")
      case None
      with Cons.prems none[OF None] show ?thesis by simp
    next
      case (Some w)
      from Cons.IH[OF Some] have w: "w \<in> set ts" "\<forall>v \<in> set ts. due w \<le> due v" by simp_all
      show ?thesis
      proof (cases "due w < due a")
        case True
        with Cons.prems Some have "u = w" by simp
        with w True show ?thesis by auto
      next
        case False
        with Cons.prems Some have "u = a" by simp
        with w False show ?thesis by fastforce
      qed
    qed
  qed
  have Q_nested: "now (snd (nested f cs x)) = now x
      \<and> (\<forall>m \<le> now x. cnt m (snd (nested f cs x)) \<le> cnt m x)" if "Q f" for f cs x
  proof (induction cs arbitrary: x)
    case Nil
    show ?case by simp
  next
    case (Cons c cs)
    obtain v a where c: "c = (v, a)" by (cases c)
    obtain r x1 where f: "f v a x = (r, x1)" by (cases "f v a x")
    from that have q: "now x1 = now x" "\<forall>m \<le> now x. cnt m x1 \<le> cnt m x"
      unfolding Q_def using f by (metis snd_conv)+
    show ?case
    proof (cases r)
      case Raises
      with q show ?thesis by (simp add: c f)
    next
      case Normal
      with Cons.IH[of x1] q show ?thesis by (fastforce simp: c f)
    qed
  qed
  have Q_invoke: "Q (invoke f)" if "Q f" for f
    unfolding Q_def
  proof (intro allI)
    fix v :: nat and a :: 'a and x :: "'a system"
    let ?x1 = "x\<lparr>calls := calls x @ [(v, a)]\<rparr>"
    have "snd (invoke f v a x) = snd (nested f (inner (fn (wrappers x ! v) a)) ?x1)"
      by (simp add: invoke_def Let_def split: prod.splits fn_result.splits)
    with Q_nested[OF that, of "inner (fn (wrappers x ! v) a)" ?x1]
    show "now (snd (invoke f v a x)) = now x
            \<and> (\<forall>m \<le> now x. cnt m (snd (invoke f v a x)) \<le> cnt m x)"
      by (simp add: cnt_def)
  qed
  have sched: "now (set_timer v (Some h) (snd (setTimeout c d x))) = now x
      \<and> (\<forall>m \<le> now x. cnt m (set_timer v (Some h) (snd (setTimeout c d x))) = cnt m x)"
    for v h c d and x :: "'a system"
    by (simp add: set_timer_def setTimeout_def cnt_def host_delay_def)
  have Q_throttled: "Q (throttled f)" if "Q f" for f
    unfolding Q_def
  proof (intro allI)
    fix v :: nat and a :: 'a and x :: "'a system"
    obtain r x1 where i: "invoke f v a x = (r, x1)" by (cases "invoke f v a x")
    from Q_invoke[OF that] have q: "now x1 = now x" "\<forall>m \<le> now x. cnt m x1 \<le> cnt m x"
      unfolding Q_def using i by (metis snd_conv)+
    show "now (snd (throttled f v a x)) = now x
            \<and> (\<forall>m \<le> now x. cnt m (snd (throttled f v a x)) \<le> cnt m x)"
    proof (cases "truthy (timer (wrappers x ! v))")
      case True
      then show ?thesis by (simp add: throttled_def)
    next
      case False
      show ?thesis
      proof (cases r)
        case Raises
        with False q show ?thesis by (simp add: throttled_def i)
      next
        case Normal
        have "snd (throttled f v a x)
            = set_timer v (Some (next_id x1)) (snd (setTimeout (ClearTimer v) (delay (wrappers x1 ! v)) x1))"
          using False Normal by (simp add: throttled_def i setTimeout_def)
        with sched[of v "next_id x1" "ClearTimer v" "delay (wrappers x1 ! v)" x1] q
        show ?thesis by simp
      qed
    qed
  qed
  have ff: "length (filter P (filter R xs)) \<le> length (filter P xs)"
    for P R and xs :: "'a task list"
    by (induction xs) auto
  have ffs: "u \<in> set xs \<Longrightarrow> P u \<Longrightarrow> \<not> R u \<Longrightarrow>
      length (filter P (filter R xs)) < length (filter P xs)"
    for P R u and xs :: "'a task list"
  proof (induction xs)
    case Nil
    then show ?case by simp
  next
    case (Cons y ys)
    show ?case
    proof (cases "u = y")
      case True
      with Cons.prems ff[of P R ys] show ?thesis by (simp add: less_Suc_eq_le)
    next
      case False
      with Cons show ?thesis by auto
    qed
  qed
  have Q_debounced: "Q (\<lambda>v a x. debounced v a x)"
    unfolding Q_def
  proof (intro allI)
    fix v :: nat and a :: 'a and x :: "'a system"
    let ?x1 = "if truthy (timer (wrappers x ! v)) then clearTimeout (the (timer (wrappers x ! v))) x else x"
    have c: "now ?x1 = now x" "cnt m ?x1 \<le> cnt m x" for m
      using ff[of "\<lambda>u. due u \<le> m" _ "pending x"] by (simp_all add: clearTimeout_def cnt_def)
    have "snd (debounced v a x)
        = set_timer v (Some (next_id ?x1)) (snd (setTimeout (InvokeFn v a) (delay (wrappers x ! v)) ?x1))"
      by (simp add: debounced_def Let_def setTimeout_def)
    with sched[of v "next_id ?x1" "InvokeFn v a" "delay (wrappers x ! v)" ?x1] c
    show "now (snd (debounced v a x)) = now x
            \<and> (\<forall>m \<le> now x. cnt m (snd (debounced v a x)) \<le> cnt m x)"
      by simp
  qed
  have Q_dispatch: "Q (dispatch f)" if "Q f" for f
    using Q_throttled[OF that] Q_debounced unfolding Q_def dispatch_def
    by (simp split: kind.splits)
  have Q_call: "Q (call_at k)" for k
  proof (induction k)
    case 0
    have "Q overflow" by (simp add: Q_def overflow_def)
    then show ?case by (simp add: Q_dispatch)
  next
    case (Suc k)
    then show ?case by (simp add: Q_dispatch)
  qed
  have cb: "now (run_callback c x) = now x \<and> (\<forall>m \<le> now x. cnt m (run_callback c x) \<le> cnt m x)"
    for c and x :: "'a system"
  proof (cases c)
    case (ClearTimer v)
    then show ?thesis by (simp add: set_timer_def cnt_def)
  next
    case (InvokeFn v a)
    with Q_invoke[OF Q_call, of "stack x"] show ?thesis by (simp add: Q_def)
  qed
  let ?s0 = "s\<lparr>now := max (now s) (due t), pending := filter (\<lambda>u. tid u \<noteq> tid t) (pending s)\<rparr>"
  from mem[OF e] have t: "t \<in> set (pending s)" "due t \<le> target"
    and least: "\<forall>v \<in> set (pending s). due v \<le> target \<longrightarrow> due t \<le> due v"
    by auto
  have below: "cnt m (fire t s) \<le> cnt m s" if "m \<le> max (now s) (due t)" for m
  proof -
    have "cnt m (fire t s) \<le> cnt m ?s0" using cb[of "cb t" ?s0] that by (simp add: fire_def)
    also have "\<dots> \<le> cnt m s" using ff[of "\<lambda>u. due u \<le> m" _ "pending s"] by (simp add: cnt_def)
    finally show ?thesis .
  qed
  have strict: "cnt (due t) (fire t s) < cnt (due t) s"
  proof -
    have "cnt (due t) (fire t s) \<le> cnt (due t) ?s0" using cb[of "cb t" ?s0] by (simp add: fire_def)
    also have "\<dots> < cnt (due t) s"
      using ffs[of t "pending s" "\<lambda>u. due u \<le> due t" "\<lambda>u. tid u \<noteq> tid t"] t by (simp add: cnt_def)
    finally show ?thesis .
  qed
  have later: "due t \<le> due u" if "u \<in> set (pending (fire t s))" "due u \<le> target" for u
  proof (rule ccontr)
    assume "\<not> due t \<le> due u"
    then have lt: "due u < due t" by simp
    have "cnt (due u) s = 0"
      using least lt t by (auto simp: cnt_def filter_empty_conv)
    with below[of "due u"] lt have "cnt (due u) (fire t s) = 0" by simp
    with that show False by (auto simp: cnt_def filter_empty_conv)
  qed
  show "((target, fire t s), (target, s)) \<in> measures
    [\<lambda>(target, s). case earliest (filter (\<lambda>t. due t \<le> target) (pending s)) of
                       None \<Rightarrow> 0 | Some t \<Rightarrow> Suc target - due t,
     \<lambda>(target, s). case earliest (filter (\<lambda>t. due t \<le> target) (pending s)) of
                       None \<Rightarrow> 0 | Some t \<Rightarrow> length (filter (\<lambda>u. due u \<le> due t) (pending s))]"
  proof (cases "earliest (filter (\<lambda>t. due t \<le> target) (pending (fire t s)))")
    case None
    with e t show ?thesis by simp
  next
    case (Some t')
    from mem[OF Some] have t': "t' \<in> set (pending (fire t s))" "due t' \<le> target" by auto
    from later[OF t'] have le: "due t \<le> due t'" .
    show ?thesis
    proof (cases "due t = due t'")
      case True
      with strict have "length (filter (\<lambda>u. due u \<le> due t') (pending (fire t s)))
          < length (filter (\<lambda>u. due u \<le> due t) (pending s))"
        by (simp add: cnt_def)
      with e Some True show ?thesis by simp
    next
      case False
      with le t' have "Suc target - due t' < Suc target - due t" by simp
      with e Some show ?thesis by simp
    qed
  qed
qed

definition elapse :: "nat \<Rightarrow> 'a system \<Rightarrow> 'a system" where
  "elapse n s = advance (now s + n) s"

text \<open>
  What the program around the wrappers does: it makes wrappers, calls them, returns to
  the host and lets time pass (\<open>Elapse\<close>), or keeps running for some time without
  returning to the host (\<open>Busy\<close>), so that the clock moves on and no timer fires. An
  exception leaving a wrapper is caught by the caller or ends its task.
\<close>

datatype 'a event =
    NewThrottle "'a \<Rightarrow> 'a behaviour" nat
  | NewDebounce "'a \<Rightarrow> 'a behaviour" nat
  | Call nat 'a
  | Elapse nat
  | Busy nat

fun exec :: "'a event \<Rightarrow> 'a system \<Rightarrow> 'a system" where
  "exec (NewThrottle f d) s = snd (throttle f d s)"
| "exec (NewDebounce f d) s = snd (debounce f d s)"
| "exec (Call w args) s = snd (call_wrapper w args s)"
| "exec (Elapse n) s = elapse n s"
| "exec (Busy n) s = s\<lparr>now := now s + n\<rparr>"

definition run :: "'a event list \<Rightarrow> 'a system \<Rightarrow> 'a system" where
  "run evs s = foldl (\<lambda>s e. exec e s) s evs"


text \<open>The arguments of the calls of wrapper \<open>w\<close>'s \<open>fn\<close> so far, in order.\<close>

definition calls_of :: "nat \<Rightarrow> 'a system \<Rightarrow> 'a list" where
  "calls_of w s = map snd (filter (\<lambda>c. fst c = w) (calls s))"

text \<open>The live timers of wrapper \<open>w\<close>: scheduled, neither fired nor cancelled.\<close>

definition live :: "nat \<Rightarrow> 'a system \<Rightarrow> 'a task list" where
  "live w s = filter (\<lambda>t. owner (cb t) = w) (pending s)"

text \<open>
  A burst: calls of wrapper \<open>w\<close> by the program, each after the given number of
  milliseconds.
\<close>

definition burst :: "nat \<Rightarrow> (nat \<times> 'a) list \<Rightarrow> 'a event list" where
  "burst w gs = concat (map (\<lambda>(d, a). [Elapse d, Call w a]) gs)"

text \<open>
  No wrapped function of the state calls wrapper \<open>w\<close>: the program alone calls it, and
  never while its \<open>fn\<close> runs.
\<close>

definition uncalled :: "nat \<Rightarrow> 'a system \<Rightarrow> bool" where
  "uncalled w s \<longleftrightarrow> (\<forall>c \<in> set (wrappers s). \<forall>a. w \<notin> fst ` set (inner (fn c a)))"

text \<open>
  What belongs to wrapper \<open>w\<close>: its closure, its live timers, and the calls of its \<open>fn\<close>.
\<close>

definition view :: "nat \<Rightarrow> 'a system \<Rightarrow> 'a wrapper \<times> 'a task list \<times> 'a list" where
  "view w s = (wrappers s ! w, live w s, calls_of w s)"
section \<open>Wrapped functions of the examples\<close>







section \<open>Invariant of the timer model\<close>

text \<open>
  What holds in every state the program can reach. A pending task carries a positive
  handle below the next one to hand out and belongs to a wrapper; a throttle owns only
  callbacks that clear the timer, a debounce only callbacks that invoke \<open>fn\<close>.
\<close>

fun cb_kind :: "'a callback \<Rightarrow> kind" where
  "cb_kind (ClearTimer _) = Throttle"
| "cb_kind (InvokeFn _ _) = Debounce"

definition wf_task :: "'a system \<Rightarrow> 'a task \<Rightarrow> bool" where
  "wf_task s t \<longleftrightarrow>
     0 < tid t \<and> tid t < next_id s \<and> owner (cb t) < length (wrappers s)
     \<and> kind (wrappers s ! owner (cb t)) = cb_kind (cb t)"

text \<open>
  A handle stored in a wrapper's \<open>timer\<close> is positive and was handed out, and a pending
  task with that handle belongs to the wrapper.
\<close>

definition wf_timer :: "'a system \<Rightarrow> nat \<Rightarrow> bool" where
  "wf_timer s w \<longleftrightarrow>
     (\<forall>h. timer (wrappers s ! w) = Some h \<longrightarrow>
        0 < h \<and> h < next_id s
        \<and> (\<forall>t \<in> set (pending s). tid t = h \<longrightarrow> owner (cb t) = w))"

text \<open>
  The handle of every live timer of the wrapper is the value of its \<open>timer\<close>; for a
  throttle, the task of the handle in \<open>timer\<close> is still pending. This holds for a
  debounce, and for a throttle that no wrapped function calls.
\<close>

definition tight :: "'a system \<Rightarrow> nat \<Rightarrow> bool" where
  "tight s w \<longleftrightarrow>
     (\<forall>t \<in> set (pending s). owner (cb t) = w \<longrightarrow> timer (wrappers s ! w) = Some (tid t))
     \<and> (kind (wrappers s ! w) = Throttle \<longrightarrow>
          (\<forall>h. timer (wrappers s ! w) = Some h \<longrightarrow> h \<in> tid ` set (pending s)))"

definition good :: "nat \<Rightarrow> 'a system \<Rightarrow> bool" where
  "good w s \<longleftrightarrow> kind (wrappers s ! w) = Debounce \<or> uncalled w s"

definition invar :: "'a system \<Rightarrow> bool" where
  "invar s \<longleftrightarrow>
     0 < next_id s
     \<and> distinct (map tid (pending s))
     \<and> (\<forall>t \<in> set (pending s). wf_task s t)
     \<and> (\<forall>w < length (wrappers s). wf_timer s w)
     \<and> (\<forall>w < length (wrappers s). good w s \<longrightarrow> tight s w)"

text \<open>What a call leaves as it is: the clock, the stack, and the code of the wrappers.\<close>

definition code :: "'a system \<Rightarrow> (kind \<times> ('a \<Rightarrow> 'a behaviour) \<times> nat) list" where
  "code s = map (\<lambda>c. (kind c, fn c, delay c)) (wrappers s)"

text \<open>
  A way \<open>f\<close> of running wrapper calls is orderly when each call keeps the invariant, the
  clock, the stack and the code, and leaves alone every other wrapper that no wrapped
  function calls.
\<close>

definition orderly :: "(nat \<Rightarrow> 'a \<Rightarrow> 'a system \<Rightarrow> fn_result \<times> 'a system) \<Rightarrow> bool" where
  "orderly f \<longleftrightarrow>
     (\<forall>v a s. invar s \<longrightarrow>
        invar (snd (f v a s))
        \<and> now (snd (f v a s)) = now s
        \<and> stack (snd (f v a s)) = stack s
        \<and> code (snd (f v a s)) = code s
        \<and> (\<forall>w. uncalled w s \<longrightarrow> w \<noteq> v \<longrightarrow> view w (snd (f v a s)) = view w s))"



text \<open>No element of the list is \<open>SameValueZero\<close>-equal to an earlier one.\<close>

definition pairwise_new :: "jsval list \<Rightarrow> bool" where
  "pairwise_new ys = (\<forall>j < length ys. \<forall>i < j. \<not> same_value_zero (ys ! i) (ys ! j))"

declare advance.simps [simp del]

section \<open>Properties of the type predicates\<close>

subsection \<open>\<open>isIndexOf\<close>\<close>

lemma isInt_iff: "Number_isInteger n \<longleftrightarrow> (\<exists>k::int. n = Fin (of_int k))"
proof (cases n)
  case (Fin q)
  show ?thesis
  proof
    assume "Number_isInteger n"
    then have "q = of_int \<lfloor>q\<rfloor>" using Fin by simp
    then show "\<exists>k::int. n = Fin (of_int k)" using Fin by blast
  next
    assume "\<exists>k::int. n = Fin (of_int k)"
    then show "Number_isInteger n" by auto
  qed
qed simp_all

lemma index_test:
  "(\<not> isNaN n \<and> Number_isInteger n \<and> num_ge n (Fin 0) \<and> num_lt n (Fin (of_nat (length array))))
     \<longleftrightarrow> (\<exists>k < length array. n = Fin (of_nat k))"
proof
  assume a: "\<not> isNaN n \<and> Number_isInteger n \<and> num_ge n (Fin 0) \<and> num_lt n (Fin (of_nat (length array)))"
  then obtain k :: int where n: "n = Fin (of_int k)" using isInt_iff by blast
  from a n have "(0::rat) \<le> of_int k" "(of_int k :: rat) < of_nat (length array)" by simp_all
  then have "(0::rat) \<le> of_int k" "(of_int k :: rat) < of_int (int (length array))" by simp_all
  then have "0 \<le> k" "k < int (length array)" by (simp_all only: of_int_0_le_iff of_int_less_iff)
  then have "nat k < length array" "n = Fin (of_nat (nat k))" using n by simp_all
  then show "\<exists>k < length array. n = Fin (of_nat k)" by blast
next
  assume "\<exists>k < length array. n = Fin (of_nat k)"
  then obtain k where "k < length array" "n = Fin (of_nat k)" by blast
  then show "\<not> isNaN n \<and> Number_isInteger n \<and> num_ge n (Fin 0) \<and> num_lt n (Fin (of_nat (length array)))"
    by simp
qed

lemma isIndexOf_num: "isIndexOf N (JNum n) array = Returns (JBool (\<exists>k < length array. n = Fin (of_nat k)))"
  by (simp add: isIndexOf_def index_test)

lemma isIndexOf_str: "s \<noteq> [] \<Longrightarrow> isIndexOf N (JStr s) array = Returns (JBool (\<exists>k < length array. N s = Fin (of_nat k)))"
  by (simp add: isIndexOf_def index_test)

lemma isIndexOf_empty: "isIndexOf N (JStr []) array = Returns (JBool False)"
  by (simp add: isIndexOf_def)

lemma isIndexOf_other: "typeof v \<noteq> ''string'' \<Longrightarrow> typeof v \<noteq> ''number'' \<Longrightarrow> isIndexOf N v array = Returns (JBool False)"
  by (cases v) (simp_all add: isIndexOf_def)

lemma typeof_obj: "typeof (JObj r ob) \<noteq> ''string'' \<and> typeof (JObj r ob) \<noteq> ''number''"
  by (cases ob) simp_all

lemma isIndexOf_iff:
  "isIndexOf N idx array = Returns (JBool True) \<longleftrightarrow>
     (\<exists>k < length array. idx = JNum (Fin (of_nat k)) \<or> (\<exists>s. s \<noteq> [] \<and> idx = JStr s \<and> N s = Fin (of_nat k)))"
proof (cases idx)
  case (JNum n) then show ?thesis by (auto simp: isIndexOf_num)
next
  case (JStr s) then show ?thesis by (cases "s = []") (auto simp: isIndexOf_str isIndexOf_empty)
next
  case (JObj r ob) then show ?thesis using isIndexOf_other[OF conjunct1[OF typeof_obj] conjunct2[OF typeof_obj], of N r ob array] by auto
qed (auto simp: isIndexOf_other)

text \<open>
  Claim C4. \<open>isIndexOf(idx, array)\<close> returns true iff \<open>idx\<close>, after the numeric
  coercion of a non-empty string, is an integer in \<open>[0, array.length)\<close>: either \<open>idx\<close> is
  the number \<open>k\<close> or a non-empty string that \<open>Number\<close> converts to \<open>k\<close>, for some
  \<open>k < length array\<close>; otherwise it returns false. It returns false for a number that is
  not an integer (also \<open>NaN\<close> and the infinities), for a negative number, for a number
  at or beyond the length, for the empty string, and for every value that is neither a
  string nor a number. For the array \<open>[1, 2, 3]\<close>: \<open>0\<close> gives true, \<open>3\<close> false,
  \<open>'2'\<close> true (where \<open>Number('2')\<close> is \<open>2\<close>), \<open>-1\<close> false, \<open>1.5\<close> false, \<open>null\<close>
  false. This holds for every conversion \<open>N\<close> of strings to numbers.
\<close>

theorem isIndexOf_contract:
  "(isIndexOf N idx array = Returns (JBool True) \<longleftrightarrow>
      (\<exists>k < length array. idx = JNum (Fin (of_nat k))
          \<or> (\<exists>s. s \<noteq> [] \<and> idx = JStr s \<and> N s = Fin (of_nat k))))
   \<and> (isIndexOf N idx array \<noteq> Returns (JBool True) \<longrightarrow> isIndexOf N idx array = Returns (JBool False))
   \<and> (q \<noteq> of_int \<lfloor>q\<rfloor> \<longrightarrow> isIndexOf N (JNum (Fin q)) array = Returns (JBool False))
   \<and> isIndexOf N (JNum NaN) array = Returns (JBool False)
   \<and> isIndexOf N (JNum PosInf) array = Returns (JBool False)
   \<and> isIndexOf N (JNum NegInf) array = Returns (JBool False)
   \<and> (m < 0 \<longrightarrow> isIndexOf N (JNum (Fin m)) array = Returns (JBool False))
   \<and> (of_nat (length array) \<le> r \<longrightarrow> isIndexOf N (JNum (Fin r)) array = Returns (JBool False))
   \<and> isIndexOf N (JStr []) array = Returns (JBool False)
   \<and> (typeof v \<noteq> ''string'' \<and> typeof v \<noteq> ''number'' \<longrightarrow>
         isIndexOf N v array = Returns (JBool False))
   \<and> isIndexOf N (JNum (Fin 0)) [JNum (Fin 1), JNum (Fin 2), JNum (Fin 3)] = Returns (JBool True)
   \<and> isIndexOf N (JNum (Fin 3)) [JNum (Fin 1), JNum (Fin 2), JNum (Fin 3)] = Returns (JBool False)
   \<and> (N ''2'' = Fin 2 \<longrightarrow>
         isIndexOf N (JStr ''2'') [JNum (Fin 1), JNum (Fin 2), JNum (Fin 3)] = Returns (JBool True))
   \<and> isIndexOf N (JNum (Fin (- 1))) [JNum (Fin 1), JNum (Fin 2), JNum (Fin 3)] = Returns (JBool False)
   \<and> isIndexOf N (JNum (Fin (3 / 2))) [JNum (Fin 1), JNum (Fin 2), JNum (Fin 3)] = Returns (JBool False)
   \<and> isIndexOf N JNull [JNum (Fin 1), JNum (Fin 2), JNum (Fin 3)] = Returns (JBool False)"
proof -
  have bool: "isIndexOf N idx array \<noteq> Returns (JBool True) \<longrightarrow> isIndexOf N idx array = Returns (JBool False)"
    by (simp add: isIndexOf_def Let_def)
  have nonint: "q \<noteq> of_int \<lfloor>q\<rfloor> \<longrightarrow> isIndexOf N (JNum (Fin q)) array = Returns (JBool False)"
    by (simp add: isIndexOf_def)
  have neg: "m < 0 \<longrightarrow> isIndexOf N (JNum (Fin m)) array = Returns (JBool False)"
    by (simp add: isIndexOf_def)
  have big: "of_nat (length array) \<le> r \<longrightarrow> isIndexOf N (JNum (Fin r)) array = Returns (JBool False)"
    by (simp add: isIndexOf_def)
  have special: "isIndexOf N (JNum NaN) array = Returns (JBool False)"
      "isIndexOf N (JNum PosInf) array = Returns (JBool False)"
      "isIndexOf N (JNum NegInf) array = Returns (JBool False)"
    by (simp_all add: isIndexOf_def)
  have e0: "isIndexOf N (JNum (Fin 0)) [JNum (Fin 1), JNum (Fin 2), JNum (Fin 3)] = Returns (JBool True)"
    by (simp add: isIndexOf_def)
  have e3: "isIndexOf N (JNum (Fin 3)) [JNum (Fin 1), JNum (Fin 2), JNum (Fin 3)] = Returns (JBool False)"
    by (simp add: isIndexOf_def)
  have e2: "N ''2'' = Fin 2 \<longrightarrow>
         isIndexOf N (JStr ''2'') [JNum (Fin 1), JNum (Fin 2), JNum (Fin 3)] = Returns (JBool True)"
    by (simp add: isIndexOf_def)
  have em: "isIndexOf N (JNum (Fin (- 1))) [JNum (Fin 1), JNum (Fin 2), JNum (Fin 3)] = Returns (JBool False)"
    by (simp add: isIndexOf_def)
  have fl: "\<lfloor>3 / 2 :: rat\<rfloor> = 1" by (rule floor_unique) simp_all
  have "(3 / 2 :: rat) \<noteq> of_int \<lfloor>3 / 2 :: rat\<rfloor>" unfolding fl by simp
  then have eh: "isIndexOf N (JNum (Fin (3 / 2))) [JNum (Fin 1), JNum (Fin 2), JNum (Fin 3)] = Returns (JBool False)"
    unfolding isIndexOf_def by (simp del: floor_divide_eq_div_numeral)
  have en: "isIndexOf N JNull [JNum (Fin 1), JNum (Fin 2), JNum (Fin 3)] = Returns (JBool False)"
    by (simp add: isIndexOf_def)
  show ?thesis
    using isIndexOf_iff[of N idx array] bool nonint neg big special isIndexOf_empty[of N array]
      isIndexOf_other[of v N array] e0 e3 e2 em eh en
    by blast
qed

text \<open>
  The statement at a conversion that maps \<open>'2'\<close> to \<open>2\<close>, the index \<open>'2'\<close>, the
  string \<open>'x'\<close>, the non-integer \<open>1.5\<close>, the negative \<open>-1\<close>, the out-of-range
  \<open>7\<close> and the boolean \<open>true\<close>.
\<close>

theorem isIndexOf_contract_witness:
  "(isIndexOf (\<lambda>s. if s = ''2'' then Fin 2 else NaN) (JStr ''2'') [JNum (Fin 1), JNum (Fin 2), JNum (Fin 3)]
      = Returns (JBool True))
   \<and> (3 / 2 :: rat) \<noteq> of_int \<lfloor>3 / 2 :: rat\<rfloor>
   \<and> isIndexOf (\<lambda>s. if s = ''2'' then Fin 2 else NaN) (JNum (Fin (3 / 2))) [JNum (Fin 1), JNum (Fin 2), JNum (Fin 3)]
      = Returns (JBool False)
   \<and> (- 1 :: rat) < 0
   \<and> isIndexOf (\<lambda>s. if s = ''2'' then Fin 2 else NaN) (JNum (Fin (- 1))) [JNum (Fin 1), JNum (Fin 2), JNum (Fin 3)]
      = Returns (JBool False)
   \<and> of_nat (length [JNum (Fin 1), JNum (Fin 2), JNum (Fin 3)]) \<le> (7 :: rat)
   \<and> isIndexOf (\<lambda>s. if s = ''2'' then Fin 2 else NaN) (JNum (Fin 7)) [JNum (Fin 1), JNum (Fin 2), JNum (Fin 3)]
      = Returns (JBool False)
   \<and> typeof (JBool True) \<noteq> ''string'' \<and> typeof (JBool True) \<noteq> ''number''
   \<and> isIndexOf (\<lambda>s. if s = ''2'' then Fin 2 else NaN) (JBool True) [JNum (Fin 1), JNum (Fin 2), JNum (Fin 3)]
      = Returns (JBool False)
   \<and> isIndexOf (\<lambda>s. if s = ''2'' then Fin 2 else NaN) (JStr ''x'') [JNum (Fin 1), JNum (Fin 2), JNum (Fin 3)]
      \<noteq> Returns (JBool True)
   \<and> isIndexOf (\<lambda>s. if s = ''2'' then Fin 2 else NaN) (JStr ''x'') [JNum (Fin 1), JNum (Fin 2), JNum (Fin 3)]
      = Returns (JBool False)"
proof -
  have fl: "\<lfloor>3 / 2 :: rat\<rfloor> = 1" by (rule floor_unique) simp_all
  have h1: "(3 / 2 :: rat) \<noteq> of_int \<lfloor>3 / 2 :: rat\<rfloor>" unfolding fl by simp
  have h2: "(- 1 :: rat) < 0" by simp
  have h3: "of_nat (length [JNum (Fin 1), JNum (Fin 2), JNum (Fin 3)]) \<le> (7 :: rat)" by simp
  have h4: "typeof (JBool True) \<noteq> ''string'' \<and> typeof (JBool True) \<noteq> ''number''" by simp
  have h5: "(\<lambda>s. if s = ''2'' then Fin 2 else NaN) ''2'' = Fin 2" by simp
  have h6: "isIndexOf (\<lambda>s. if s = ''2'' then Fin 2 else NaN) (JStr ''x'')
      [JNum (Fin 1), JNum (Fin 2), JNum (Fin 3)] \<noteq> Returns (JBool True)"
    by (simp add: isIndexOf_def)
  show ?thesis
    using isIndexOf_contract [of "\<lambda>s. if s = ''2'' then Fin 2 else NaN" "JStr ''2''"
        "[JNum (Fin 1), JNum (Fin 2), JNum (Fin 3)]" "3 / 2" "- 1" 7 "JBool True"]
      isIndexOf_contract [of "\<lambda>s. if s = ''2'' then Fin 2 else NaN" "JStr ''x''"
        "[JNum (Fin 1), JNum (Fin 2), JNum (Fin 3)]" "3 / 2" "- 1" 7 "JBool True"]
      h1 h2 h3 h4 h5 h6
    by blast
qed

subsection \<open>\<open>isAsyncFunction\<close> and the other predicates\<close>

lemma typeof_function_iff: "typeof v = ''function'' \<longleftrightarrow> (\<exists>r d ps c. v = JObj r (Function d ps c))"
proof (cases v)
  case (JObj r ob) then show ?thesis by (cases ob) simp_all
qed simp_all

lemma isAsyncFunction_non_function:
  "typeof v \<noteq> ''function'' \<Longrightarrow> isAsyncFunction v = Returns (JBool False)"
  by (simp add: isAsyncFunction_def)

lemma isAsyncFunction_string:
  "toString_call d ps = Returns (JStr s) \<Longrightarrow>
     isAsyncFunction (JObj r (Function d ps c)) = Returns (JBool (startsWith s ''async''))"
  by (simp add: isAsyncFunction_def)

lemma toString_inherited: "map_of ps ''toString'' = None \<Longrightarrow> toString_call d ps = Returns (JStr (source_text d))"
  by (simp add: toString_call_def)

lemma isAsyncFunction_inherited:
  "map_of ps ''toString'' = None \<Longrightarrow>
     isAsyncFunction (JObj r (Function d ps c)) = Returns (JBool (startsWith (source_text d) ''async''))"
  by (simp add: isAsyncFunction_string toString_inherited)

lemma async_source: "declared_async d \<Longrightarrow> startsWith (source_text d) ''async''"
  by (cases d) (simp_all add: startsWith_def)

lemma sync_keyword_source:
  "\<not> startsWith (source_text (FunctionForm False rest)) ''async''"
  "\<not> startsWith (source_text (ClassForm rest)) ''async''"
  "\<not> startsWith (source_text (NativeForm name)) ''async''"
  by (simp_all add: startsWith_def)

lemma call_non_function: "typeof m \<noteq> ''function'' \<Longrightarrow> call m = Throws TypeError"
proof (cases m)
  case (JObj r ob) assume "typeof m \<noteq> ''function''" with JObj show ?thesis by (cases ob) simp_all
qed simp_all

lemma isAsyncFunction_bad_toString:
  "map_of ps ''toString'' = Some m \<Longrightarrow> typeof m \<noteq> ''function'' \<Longrightarrow>
     isAsyncFunction (JObj r (Function d ps c)) = Throws TypeError"
  by (simp add: isAsyncFunction_def toString_call_def call_non_function)

text \<open>
  The arrow function \<open>asyncJob => asyncJob\<close> is not declared with \<open>async\<close>, yet its
  source text begins with these five letters, and \<open>isAsyncFunction\<close> returns true. The
  function \<open>async () => { }\<close> with an own \<open>toString\<close> that returns \<open>'1'\<close> is
  declared with \<open>async\<close>, and \<open>isAsyncFunction\<close> returns false.
\<close>

theorem isAsyncFunction_prefix_counterexample:
  "\<not> declared_async (ArrowForm False ''asyncJob => asyncJob'')
   \<and> isAsyncFunction (JObj 1 (Function (ArrowForm False ''asyncJob => asyncJob'') [] (Returns JUndefined)))
       = Returns (JBool True)
   \<and> declared_async (ArrowForm True ''() => { }'')
   \<and> isAsyncFunction
        (JObj 2 (Function (ArrowForm True ''() => { }'')
           [(''toString'', JObj 3 (Function (ArrowForm False ''() => String(1)'') [] (Returns (JStr ''1''))))]
           (Returns (JObj 4 Promise))))
       = Returns (JBool False)"
  by (simp add: isAsyncFunction_def toString_call_def startsWith_def)

text \<open>
  Claim C5, amended. \<open>isAsyncFunction(v)\<close> returns false for every \<open>v\<close> that is not a
  function. For a function whose \<open>toString()\<close> yields a string \<open>s\<close> it returns whether
  \<open>s\<close> begins with \<open>async\<close>, and the result does not depend on what a call of \<open>v\<close>
  would do (\<open>c\<close>). For a function that inherits \<open>toString\<close>, that is, has no own
  property \<open>toString\<close>, that string is the source text; hence such a function declared
  with \<open>async\<close> returns true, and such a function not so declared returns false unless
  its source text itself begins with \<open>async\<close>; such a function whose definition begins
  with \<open>function\<close> or \<open>class\<close>, and such a built-in, returns false.
\<close>

theorem isAsyncFunction_heuristic:
  "(typeof v \<noteq> ''function'' \<longrightarrow> isAsyncFunction v = Returns (JBool False))
   \<and> (toString_call d ps = Returns (JStr s) \<longrightarrow>
         isAsyncFunction (JObj r (Function d ps c)) = Returns (JBool (startsWith s ''async'')))
   \<and> (map_of ps ''toString'' = None \<longrightarrow>
         isAsyncFunction (JObj r (Function d ps c)) = Returns (JBool (startsWith (source_text d) ''async'')))
   \<and> (map_of ps ''toString'' = None \<and> declared_async d \<longrightarrow>
         isAsyncFunction (JObj r (Function d ps c)) = Returns (JBool True))
   \<and> (map_of ps ''toString'' = None \<and> \<not> declared_async d
         \<and> \<not> startsWith (source_text d) ''async'' \<longrightarrow>
         isAsyncFunction (JObj r (Function d ps c)) = Returns (JBool False))
   \<and> (map_of ps ''toString'' = None \<longrightarrow>
         isAsyncFunction (JObj r (Function (FunctionForm False rest) ps c)) = Returns (JBool False)
         \<and> isAsyncFunction (JObj r (Function (ClassForm rest) ps c)) = Returns (JBool False)
         \<and> isAsyncFunction (JObj r (Function (NativeForm rest) ps c)) = Returns (JBool False))"
  using isAsyncFunction_non_function[of v] isAsyncFunction_string[of d ps s r c]
    isAsyncFunction_inherited[of ps r d c] async_source[of d]
    isAsyncFunction_inherited[of ps r "FunctionForm False rest" c]
    isAsyncFunction_inherited[of ps r "ClassForm rest" c]
    isAsyncFunction_inherited[of ps r "NativeForm rest" c]
    sync_keyword_source[of rest]
  by simp

text \<open>
  The statement at the number \<open>1\<close>, at \<open>async () => { }\<close> and at
  \<open>() => new Promise(() => { })\<close>.
\<close>

theorem isAsyncFunction_heuristic_witness:
  "typeof (JNum (Fin 1)) \<noteq> ''function''
   \<and> isAsyncFunction (JNum (Fin 1)) = Returns (JBool False)
   \<and> map_of ([] :: (string \<times> jsval) list) ''toString'' = None
   \<and> declared_async (ArrowForm True ''() => { }'')
   \<and> toString_call (ArrowForm True ''() => { }'') [] = Returns (JStr ''async () => { }'')
   \<and> isAsyncFunction (JObj 1 (Function (ArrowForm True ''() => { }'') [] (Returns (JObj 2 Promise))))
       = Returns (JBool True)
   \<and> \<not> declared_async (ArrowForm False ''() => new Promise(() => { })'')
   \<and> \<not> startsWith (source_text (ArrowForm False ''() => new Promise(() => { })'')) ''async''
   \<and> isAsyncFunction (JObj 3 (Function (ArrowForm False ''() => new Promise(() => { })'') []
         (Returns (JObj 4 Promise))))
       = Returns (JBool False)"
proof -
  have h1: "typeof (JNum (Fin 1)) \<noteq> ''function''" by simp
  have h2: "map_of ([] :: (string \<times> jsval) list) ''toString'' = None" by simp
  have h3: "declared_async (ArrowForm True ''() => { }'')" by simp
  have h4: "toString_call (ArrowForm True ''() => { }'') [] = Returns (JStr ''async () => { }'')"
    by (simp add: toString_call_def)
  have h5: "\<not> declared_async (ArrowForm False ''() => new Promise(() => { })'')" by simp
  have h6: "\<not> startsWith (source_text (ArrowForm False ''() => new Promise(() => { })'')) ''async''"
    by (simp add: startsWith_def)
  show ?thesis
    using isAsyncFunction_heuristic [of "JNum (Fin 1)" "ArrowForm True ''() => { }''" "[]"
        "''async () => { }''" 1 "Returns (JObj 2 Promise)" "[]"]
      isAsyncFunction_heuristic [of "JNum (Fin 1)" "ArrowForm False ''() => new Promise(() => { })''" "[]"
        "[]" 3 "Returns (JObj 4 Promise)" "[]"]
      h1 h2 h3 h4 h5 h6
    by blast
qed

text \<open>
  \<open>const f = () => { }; f.toString = null; isAsyncFunction(f)\<close> raises \<open>TypeError\<close>:
  the value found under \<open>toString\<close> is not callable.
\<close>

theorem isAsyncFunction_throws_counterexample:
  "isAsyncFunction (JObj 1 (Function (ArrowForm False ''() => { }'') [(''toString'', JNull)] (Returns JUndefined)))
     = Throws TypeError"
  by (simp add: isAsyncFunction_def toString_call_def)

text \<open>
  Claim C7, amended. On the values modelled here (primitives, arrays, promises, plain
  objects and function objects with own properties; no proxies), \<open>isIndexOf\<close> (for an
  array-like that has a length), \<open>isArray\<close>, \<open>isIndexable\<close>, \<open>isString\<close>, \<open>isNumber\<close> and
  \<open>isPromise\<close> return a boolean for every input and never throw. \<open>isAsyncFunction\<close>
  returns false for every value that is not a function, and a boolean for every function
  whose \<open>toString()\<close> yields a string, in particular for every function that inherits
  \<open>toString\<close>; for a function whose own \<open>toString\<close> is not callable it raises
  \<open>TypeError\<close>.
\<close>

theorem predicates_return_boolean:
  "(\<exists>b. isIndexOf N v array = Returns (JBool b))
   \<and> (\<exists>b. isArray v = Returns (JBool b))
   \<and> (\<exists>b. isIndexable v = Returns (JBool b))
   \<and> (\<exists>b. isString v = Returns (JBool b))
   \<and> (\<exists>b. isNumber v = Returns (JBool b))
   \<and> (\<exists>b. isPromise v = Returns (JBool b))
   \<and> (typeof v \<noteq> ''function'' \<longrightarrow> isAsyncFunction v = Returns (JBool False))
   \<and> (toString_call d ps = Returns (JStr s) \<longrightarrow>
         (\<exists>b. isAsyncFunction (JObj r (Function d ps c)) = Returns (JBool b)))
   \<and> (map_of ps ''toString'' = None \<longrightarrow>
         (\<exists>b. isAsyncFunction (JObj r (Function d ps c)) = Returns (JBool b)))
   \<and> (map_of ps ''toString'' = Some m \<and> typeof m \<noteq> ''function'' \<longrightarrow>
         isAsyncFunction (JObj r (Function d ps c)) = Throws TypeError)"
proof -
  have "\<exists>b. isIndexOf N v array = Returns (JBool b)"
    by (simp add: isIndexOf_def Let_def)
  moreover have "\<exists>b. isArray v = Returns (JBool b)" by (simp add: isArray_def)
  moreover have "\<exists>b. isIndexable v = Returns (JBool b)" by (simp add: isIndexable_def)
  moreover have "\<exists>b. isString v = Returns (JBool b)" by (simp add: isString_def)
  moreover have "\<exists>b. isNumber v = Returns (JBool b)" by (simp add: isNumber_def)
  moreover have "\<exists>b. isPromise v = Returns (JBool b)" by (simp add: isPromise_def)
  moreover note isAsyncFunction_non_function[of v] isAsyncFunction_string[of d ps s r c]
    isAsyncFunction_inherited[of ps r d c]
    isAsyncFunction_bad_toString[of ps m r d c]
  ultimately show ?thesis by blast
qed

text \<open>
  The statement at the string \<open>'x'\<close> and at \<open>function f() { }\<close>, whose call would throw,
  with the inherited \<open>toString\<close> and with \<open>toString\<close> set to \<open>5\<close>.
\<close>

theorem predicates_return_boolean_witness:
  "typeof (JStr ''x'') \<noteq> ''function''
   \<and> isAsyncFunction (JStr ''x'') = Returns (JBool False)
   \<and> map_of ([] :: (string \<times> jsval) list) ''toString'' = None
   \<and> toString_call (FunctionForm False '' f() { }'') [] = Returns (JStr ''function f() { }'')
   \<and> (\<exists>b. isAsyncFunction (JObj 1 (Function (FunctionForm False '' f() { }'') [] (Throws UserError)))
         = Returns (JBool b))
   \<and> map_of [(''toString'', JNum (Fin 5))] ''toString'' = Some (JNum (Fin 5))
   \<and> typeof (JNum (Fin 5)) \<noteq> ''function''
   \<and> isAsyncFunction (JObj 1 (Function (FunctionForm False '' f() { }'') [(''toString'', JNum (Fin 5))]
         (Throws UserError)))
       = Throws TypeError"
proof -
  have h1: "typeof (JStr ''x'') \<noteq> ''function''" by simp
  have h2: "map_of ([] :: (string \<times> jsval) list) ''toString'' = None" by simp
  have h3: "toString_call (FunctionForm False '' f() { }'') [] = Returns (JStr ''function f() { }'')"
    by (simp add: toString_call_def)
  have h4: "map_of [(''toString'', JNum (Fin 5))] ''toString'' = Some (JNum (Fin 5))" by simp
  have h5: "typeof (JNum (Fin 5)) \<noteq> ''function''" by simp
  show ?thesis
    using predicates_return_boolean [of "\<lambda>s. NaN" "JStr ''x''" "[] :: nat list"
        "FunctionForm False '' f() { }''" "[]" "''function f() { }''" 1 "Throws UserError" JNull]
      predicates_return_boolean [of "\<lambda>s. NaN" "JStr ''x''" "[] :: nat list"
        "FunctionForm False '' f() { }''" "[(''toString'', JNum (Fin 5))]" "[]" 1 "Throws UserError"
        "JNum (Fin 5)"]
      h1 h2 h3 h4 h5
    by blast
qed

section \<open>Properties of the array helpers\<close>

lemma strict_eq_refl: "x \<noteq> JNum NaN \<Longrightarrow> strict_eq x x"
proof (cases x)
  case (JNum n) assume "x \<noteq> JNum NaN" with JNum show ?thesis by (cases n) simp_all
qed simp_all

lemma every_index: "every f a \<longleftrightarrow> (\<forall>i < length a. f (a ! i) i)"
  by (auto simp: every_def list_all_iff in_set_enumerate_eq)

text \<open>
  \<open>arraysEqual([NaN], [NaN])\<close> is false, since \<open>NaN === NaN\<close> is false.
\<close>

theorem arraysEqual_NaN_counterexample: "\<not> arraysEqual [JNum NaN] [JNum NaN]"
  by (simp add: arraysEqual_def every_def index_def)

text \<open>
  Claim C6, amended. For every array \<open>xs\<close> that holds no \<open>NaN\<close>,
  \<open>arraysEqual(xs, xs)\<close> is true.
\<close>

theorem arraysEqual_refl: "\<forall>x \<in> set xs. x \<noteq> JNum NaN \<Longrightarrow> arraysEqual xs xs"
  by (simp add: arraysEqual_def every_index index_def strict_eq_refl)

text \<open>
  The statement at an array of a number, a string and an object.
\<close>

theorem arraysEqual_refl_witness:
  "arraysEqual [JNum (Fin 1), JStr ''a'', JObj 7 (Array [])] [JNum (Fin 1), JStr ''a'', JObj 7 (Array [])]"
proof -
  have h: "\<forall>x \<in> set [JNum (Fin 1), JStr ''a'', JObj 7 (Array [])]. x \<noteq> JNum NaN" by simp
  show ?thesis using arraysEqual_refl [OF h] .
qed

lemma pairwise_new_snoc:
  "pairwise_new (ys @ [v]) \<longleftrightarrow> pairwise_new ys \<and> (\<forall>u \<in> set ys. \<not> same_value_zero u v)"
proof
  assume a: "pairwise_new (ys @ [v])"
  have "pairwise_new ys"
    unfolding pairwise_new_def
  proof (intro allI impI)
    fix j i assume "j < length ys" "i < j"
    with a[unfolded pairwise_new_def, rule_format, of j i]
    show "\<not> same_value_zero (ys ! i) (ys ! j)" by (simp add: nth_append)
  qed
  moreover have "\<forall>u \<in> set ys. \<not> same_value_zero u v"
  proof
    fix u assume "u \<in> set ys"
    then obtain i where "i < length ys" "u = ys ! i" by (auto simp: in_set_conv_nth)
    with a[unfolded pairwise_new_def, rule_format, of "length ys" i]
    show "\<not> same_value_zero u v" by (simp add: nth_append)
  qed
  ultimately show "pairwise_new ys \<and> (\<forall>u \<in> set ys. \<not> same_value_zero u v)" ..
next
  assume a: "pairwise_new ys \<and> (\<forall>u \<in> set ys. \<not> same_value_zero u v)"
  show "pairwise_new (ys @ [v])"
    unfolding pairwise_new_def
  proof (intro allI impI)
    fix j i assume j: "j < length (ys @ [v])" and i: "i < j"
    show "\<not> same_value_zero ((ys @ [v]) ! i) ((ys @ [v]) ! j)"
    proof (cases "j < length ys")
      case True
      with a i show ?thesis by (simp add: pairwise_new_def nth_append)
    next
      case False
      with j have "j = length ys" by simp
      with a i show ?thesis by (simp add: nth_append)
    qed
  qed
qed

lemma Set_add_new: "pairwise_new s \<Longrightarrow> pairwise_new (Set_add s v)"
  by (simp add: Set_add_def list_ex_iff pairwise_new_snoc)

lemma foldl_Set_add_new: "pairwise_new s \<Longrightarrow> pairwise_new (foldl Set_add s xs)"
  by (induction xs arbitrary: s) (simp_all add: Set_add_new)

lemma foldl_Set_add_id: "pairwise_new (s @ ys) \<Longrightarrow> foldl Set_add s ys = s @ ys"
proof (induction ys arbitrary: s)
  case Nil then show ?case by simp
next
  case (Cons y ys)
  from Cons.prems have p: "pairwise_new ((s @ [y]) @ ys)" by simp
  have "pairwise_new (s @ [y])"
    using p by (induction ys rule: rev_induct) (simp_all add: pairwise_new_snoc flip: append_assoc)
  then have "Set_add s y = s @ [y]"
    by (simp add: pairwise_new_snoc Set_add_def list_ex_iff)
  with Cons.IH[OF p] show ?case by simp
qed

text \<open>
  Claim C8. \<open>unique\<close> is idempotent: \<open>unique(unique(xs))\<close> and \<open>unique(xs)\<close> are the same
  list, element by element, for every array \<open>xs\<close>.
\<close>

theorem unique_idempotent: "unique (unique xs) = unique xs"
proof -
  have "pairwise_new (new_Set xs)"
    unfolding new_Set_def by (rule foldl_Set_add_new) (simp add: pairwise_new_def)
  then have "foldl Set_add [] (new_Set xs) = [] @ new_Set xs"
    by (intro foldl_Set_add_id) simp
  then show ?thesis by (simp add: unique_def new_Set_def)
qed

lemma indexOf_from_absent: "\<forall>x \<in> set array. \<not> strict_eq item x \<Longrightarrow> indexOf_from k array item = - 1"
  by (induction array arbitrary: k) simp_all

lemma splice_last: "array \<noteq> [] \<Longrightarrow> splice_js array (- 1) 1 = ([last array], butlast array)"
proof -
  assume ne: "array \<noteq> []"
  then have len: "0 < length array" by simp
  have start: "(if (- 1 :: int) < 0 then max (int (length array) + - 1) 0
                else min (- 1) (int (length array))) = int (length array) - 1"
    using len by simp
  have cnt: "min (max (1::int) 0) (int (length array) - (int (length array) - 1)) = 1" by simp
  have i: "nat (int (length array) - 1) = length array - 1" by simp
  have "array = butlast array @ [last array]" using ne by simp
  then have "drop (length (butlast array)) array = [last array]"
    by (metis append_eq_conv_conj)
  then have d: "drop (length array - 1) array = [last array]" by simp
  have t: "take (length array - 1) array = butlast array"
    by (simp add: butlast_conv_take)
  have e: "length array - 1 + nat 1 = length array" using len by simp
  show ?thesis
    unfolding splice_js_def Let_def start cnt i d t e by simp
qed

text \<open>
  Claim C9. For a non-empty array none of whose elements is strictly equal to \<open>item\<close>,
  \<open>indexOf\<close> gives \<open>-1\<close> and \<open>splice(-1, 1)\<close> removes the last element:
  \<open>remove(item, array)\<close> returns the one-element array holding the last element and
  leaves the array without it, so the array is changed.
\<close>

theorem remove_absent:
  "array \<noteq> [] \<Longrightarrow> \<forall>x \<in> set array. \<not> strict_eq item x \<Longrightarrow>
     remove item array = ([last array], butlast array) \<and> butlast array \<noteq> array"
proof -
  assume ne: "array \<noteq> []" and ab: "\<forall>x \<in> set array. \<not> strict_eq item x"
  have "length (butlast array) \<noteq> length array" using ne by (cases array) simp_all
  then have "butlast array \<noteq> array" by metis
  then show ?thesis
    using ne ab by (simp add: remove_def indexOf_def indexOf_from_absent splice_last)
qed

text \<open>
  The statement at \<open>remove(5, [1, 2, 3])\<close>.
\<close>

theorem remove_absent_witness:
  "remove (JNum (Fin 5)) [JNum (Fin 1), JNum (Fin 2), JNum (Fin 3)]
     = ([JNum (Fin 3)], [JNum (Fin 1), JNum (Fin 2)])"
proof -
  have h1: "[JNum (Fin 1), JNum (Fin 2), JNum (Fin 3)] \<noteq> []" by simp
  have h2: "\<forall>x \<in> set [JNum (Fin 1), JNum (Fin 2), JNum (Fin 3)]. \<not> strict_eq (JNum (Fin 5)) x" by simp
  show ?thesis using remove_absent [OF h1 h2] by simp
qed

section \<open>Properties of the timer model\<close>

subsection \<open>The invariant\<close>


lemma invD:
  assumes "invar s"
  shows "0 < next_id s" "distinct (map tid (pending s))"
    "t \<in> set (pending s) \<Longrightarrow> wf_task s t"
    "w < length (wrappers s) \<Longrightarrow> wf_timer s w"
    "w < length (wrappers s) \<Longrightarrow> good w s \<Longrightarrow> tight s w"
  using assms unfolding invar_def by blast+

lemma taskD:
  assumes "invar s" "t \<in> set (pending s)"
  shows "0 < tid t" "tid t < next_id s" "owner (cb t) < length (wrappers s)"
    "kind (wrappers s ! owner (cb t)) = cb_kind (cb t)"
  using invD(3)[OF assms] unfolding wf_task_def by blast+

lemma timerD:
  assumes "invar s" "w < length (wrappers s)" "timer (wrappers s ! w) = Some h"
  shows "0 < h" "h < next_id s"
    "t \<in> set (pending s) \<Longrightarrow> tid t = h \<Longrightarrow> owner (cb t) = w"
  using invD(4)[OF assms(1,2)] assms(3) unfolding wf_timer_def by blast+

lemma tightD:
  assumes "invar s" "w < length (wrappers s)" "good w s"
  shows "t \<in> set (pending s) \<Longrightarrow> owner (cb t) = w \<Longrightarrow> timer (wrappers s ! w) = Some (tid t)"
    "kind (wrappers s ! w) = Throttle \<Longrightarrow> timer (wrappers s ! w) = Some h \<Longrightarrow>
       h \<in> tid ` set (pending s)"
  using invD(5)[OF assms] unfolding tight_def by blast+

lemma wf_timerI:
  assumes "\<And>h. timer (wrappers s ! w) = Some h \<Longrightarrow> 0 < h \<and> h < next_id s"
    and "\<And>h t. timer (wrappers s ! w) = Some h \<Longrightarrow> t \<in> set (pending s) \<Longrightarrow> tid t = h \<Longrightarrow>
           owner (cb t) = w"
  shows "wf_timer s w"
  unfolding wf_timer_def using assms by blast

lemma tightI:
  assumes "\<And>t. t \<in> set (pending s) \<Longrightarrow> owner (cb t) = w \<Longrightarrow>
             timer (wrappers s ! w) = Some (tid t)"
    and "\<And>h. kind (wrappers s ! w) = Throttle \<Longrightarrow> timer (wrappers s ! w) = Some h \<Longrightarrow>
           h \<in> tid ` set (pending s)"
  shows "tight s w"
  unfolding tight_def using assms by blast

lemma invI:
  assumes "0 < next_id s" "distinct (map tid (pending s))"
    "\<And>t. t \<in> set (pending s) \<Longrightarrow> wf_task s t"
    "\<And>w. w < length (wrappers s) \<Longrightarrow> wf_timer s w"
    "\<And>w. w < length (wrappers s) \<Longrightarrow> good w s \<Longrightarrow> tight s w"
  shows "invar s"
  unfolding invar_def using assms by blast




lemma falsy_no_live:
  assumes "invar s" "w < length (wrappers s)" "good w s" "\<not> truthy (timer (wrappers s ! w))"
  shows "live w s = []"
proof (rule ccontr)
  assume "live w s \<noteq> []"
  then obtain t where t: "t \<in> set (pending s)" "owner (cb t) = w"
    by (auto simp: live_def filter_empty_conv)
  from tightD(1)[OF assms(1-3) t] taskD(1)[OF assms(1) t(1)] assms(4)
  show False by (simp add: truthy_def)
qed


subsection \<open>The code of the wrappers\<close>

lemma codeD:
  assumes "code s' = code s"
  shows "length (wrappers s') = length (wrappers s)"
    "w < length (wrappers s) \<Longrightarrow> kind (wrappers s' ! w) = kind (wrappers s ! w)"
    "w < length (wrappers s) \<Longrightarrow> fn (wrappers s' ! w) = fn (wrappers s ! w)"
    "w < length (wrappers s) \<Longrightarrow> delay (wrappers s' ! w) = delay (wrappers s ! w)"
proof -
  show l: "length (wrappers s') = length (wrappers s)"
    using assms unfolding code_def by (rule map_eq_imp_length_eq)
  assume w: "w < length (wrappers s)"
  from assms have "code s' ! w = code s ! w" by simp
  with w l have "(kind (wrappers s' ! w), fn (wrappers s' ! w), delay (wrappers s' ! w))
      = (kind (wrappers s ! w), fn (wrappers s ! w), delay (wrappers s ! w))"
    by (simp add: code_def)
  then show "kind (wrappers s' ! w) = kind (wrappers s ! w)"
    "fn (wrappers s' ! w) = fn (wrappers s ! w)"
    "delay (wrappers s' ! w) = delay (wrappers s ! w)"
    by simp_all
qed

lemma uncalled_code:
  "uncalled w s \<longleftrightarrow> (\<forall>x \<in> set (code s). \<forall>a. w \<notin> fst ` set (inner (fst (snd x) a)))"
  by (simp add: uncalled_def code_def)

lemma uncalled_cong: "code s' = code s \<Longrightarrow> uncalled w s' = uncalled w s"
  by (simp add: uncalled_code)

lemma good_cong: "code s' = code s \<Longrightarrow> w < length (wrappers s) \<Longrightarrow> good w s' = good w s"
  using uncalled_cong[of s' s w] codeD(2)[of s' s w] by (simp add: good_def)

lemma uncalledD:
  "uncalled w s \<Longrightarrow> v < length (wrappers s) \<Longrightarrow> w \<notin> fst ` set (inner (fn (wrappers s ! v) a))"
  unfolding uncalled_def using nth_mem by blast

lemma set_timer_fields [simp]:
  "now (set_timer w t s) = now s"
  "next_id (set_timer w t s) = next_id s"
  "pending (set_timer w t s) = pending s"
  "calls (set_timer w t s) = calls s"
  "stack (set_timer w t s) = stack s"
  "length (wrappers (set_timer w t s)) = length (wrappers s)"
  by (simp_all add: set_timer_def)

lemma set_timer_nth:
  "w' < length (wrappers s) \<Longrightarrow>
     wrappers (set_timer w t s) ! w' = (if w' = w then (wrappers s ! w)\<lparr>timer := t\<rparr> else wrappers s ! w')"
  by (simp add: set_timer_def nth_list_update)

lemma set_timer_other: "w' \<noteq> w \<Longrightarrow> wrappers (set_timer w t s) ! w' = wrappers s ! w'"
  by (simp add: set_timer_def)

lemma set_timer_timer:
  "w' < length (wrappers s) \<Longrightarrow>
     timer (wrappers (set_timer w t s) ! w') = (if w' = w then t else timer (wrappers s ! w'))"
  by (simp add: set_timer_nth)

lemma code_set_timer [simp]: "code (set_timer w t s) = code s"
proof (cases "w < length (wrappers s)")
  case True
  have "(map (\<lambda>c. (kind c, fn c, delay c)) (wrappers s))[w := (map (\<lambda>c. (kind c, fn c, delay c)) (wrappers s)) ! w]
      = map (\<lambda>c. (kind c, fn c, delay c)) (wrappers s)"
    by (rule list_update_id)
  with True show ?thesis by (simp add: code_def set_timer_def map_update)
next
  case False
  then show ?thesis by (simp add: code_def set_timer_def not_less list_update_beyond)
qed

lemma code_fields [simp]:
  "code (s\<lparr>calls := c\<rparr>) = code s"
  "code (s\<lparr>now := n\<rparr>) = code s"
  "code (s\<lparr>pending := p\<rparr>) = code s"
  "code (s\<lparr>next_id := i\<rparr>) = code s"
  by (simp_all add: code_def)

lemma uncalled_fields [simp]:
  "uncalled w (s\<lparr>calls := c\<rparr>) = uncalled w s"
  "uncalled w (s\<lparr>now := n\<rparr>) = uncalled w s"
  "uncalled w (s\<lparr>pending := p\<rparr>) = uncalled w s"
  "uncalled w (s\<lparr>next_id := i\<rparr>) = uncalled w s"
  by (simp_all add: uncalled_def)

lemma good_fields [simp]:
  "good w (s\<lparr>calls := c\<rparr>) = good w s"
  "good w (s\<lparr>now := n\<rparr>) = good w s"
  "good w (s\<lparr>pending := p\<rparr>) = good w s"
  "good w (s\<lparr>next_id := i\<rparr>) = good w s"
  by (simp_all add: good_def)

lemma wf_task_fields [simp]:
  "wf_task (s\<lparr>calls := c\<rparr>) t = wf_task s t"
  "wf_task (s\<lparr>now := n\<rparr>) t = wf_task s t"
  "wf_task (s\<lparr>pending := p\<rparr>) t = wf_task s t"
  by (simp_all add: wf_task_def)

lemma wf_timer_fields [simp]:
  "wf_timer (s\<lparr>calls := c\<rparr>) w = wf_timer s w"
  "wf_timer (s\<lparr>now := n\<rparr>) w = wf_timer s w"
  by (simp_all add: wf_timer_def)

lemma tight_fields [simp]:
  "tight (s\<lparr>calls := c\<rparr>) w = tight s w"
  "tight (s\<lparr>now := n\<rparr>) w = tight s w"
  by (simp_all add: tight_def)

lemma inv_calls [simp]: "invar (s\<lparr>calls := c\<rparr>) = invar s"
  by (simp add: invar_def)

lemma inv_now [simp]: "invar (s\<lparr>now := c\<rparr>) = invar s"
  by (simp add: invar_def)

lemma live_fields [simp]:
  "live w (s\<lparr>calls := c\<rparr>) = live w s"
  "live w (s\<lparr>now := n\<rparr>) = live w s"
  "live w (set_timer v t s) = live w s"
  by (simp_all add: live_def)

lemma calls_of_fields [simp]:
  "calls_of w (s\<lparr>now := n\<rparr>) = calls_of w s"
  "calls_of w (s\<lparr>pending := p\<rparr>) = calls_of w s"
  "calls_of w (set_timer v t s) = calls_of w s"
  by (simp_all add: calls_of_def)

lemma calls_of_append [simp]:
  "calls_of w (s\<lparr>calls := calls s @ [(w', a)]\<rparr>) = calls_of w s @ (if w' = w then [a] else [])"
  by (simp add: calls_of_def)

lemma inv_new_wrapper:
  assumes "invar s"
  shows "invar (s\<lparr>wrappers := wrappers s @ [\<lparr>kind = k, fn = f, delay = d, timer = None\<rparr>]\<rparr>)"
    (is "invar ?s")
proof (rule invI)
  let ?x = "\<lparr>kind = k, fn = f, delay = d, timer = None\<rparr>"
  have n: "wrappers ?s ! i = wrappers s ! i" if "i < length (wrappers s)" for i
    using that by (simp add: nth_append)
  have l: "wrappers ?s ! length (wrappers s) = ?x" by simp
  have p: "pending ?s = pending s" "next_id ?s = next_id s"
    "length (wrappers ?s) = Suc (length (wrappers s))" by simp_all
  show "0 < next_id ?s" using invD(1)[OF assms] by simp
  show "distinct (map tid (pending ?s))" using invD(2)[OF assms] by simp
  show "wf_task ?s t" if "t \<in> set (pending ?s)" for t
  proof -
    from that have t: "t \<in> set (pending s)" by simp
    note d = taskD[OF assms t]
    show ?thesis unfolding wf_task_def p n[OF d(3)] using d by simp
  qed
  show "wf_timer ?s w" if "w < length (wrappers ?s)" for w
  proof (cases "w < length (wrappers s)")
    case True
    from invD(4)[OF assms True] show ?thesis
      unfolding wf_timer_def p n[OF True] .
  next
    case False
    with that have "w = length (wrappers s)" by simp
    then show ?thesis unfolding wf_timer_def by simp
  qed
  show "tight ?s w" if "w < length (wrappers ?s)" "good w ?s" for w
  proof (cases "w < length (wrappers s)")
    case True
    from that(2) True have "good w s"
      by (simp add: good_def uncalled_def nth_append, blast?)
    from invD(5)[OF assms True this] show ?thesis
      unfolding tight_def p n[OF True] .
  next
    case False
    with that have e: "w = length (wrappers s)" by simp
    have "owner (cb t) \<noteq> w" if "t \<in> set (pending s)" for t
      using taskD(3)[OF assms that] e by simp
    then show ?thesis unfolding tight_def p e l by auto
  qed
qed

lemma inv_throttle: "invar s \<Longrightarrow> invar (snd (throttle f d s))"
  unfolding throttle_def snd_conv by (rule inv_new_wrapper)

lemma inv_debounce: "invar s \<Longrightarrow> invar (snd (debounce f d s))"
  unfolding debounce_def snd_conv by (rule inv_new_wrapper)

lemma no_live_owner: "live w s = [] \<Longrightarrow> t \<in> set (pending s) \<Longrightarrow> owner (cb t) \<noteq> w"
  by (auto simp: live_def filter_empty_conv)

text \<open>
  Scheduling a task for a wrapper and storing the handle in its \<open>timer\<close>. A debounce, and
  a throttle that no wrapped function calls, has no live timer at that moment.
\<close>

lemma inv_schedule:
  assumes i: "invar s" and w: "w < length (wrappers s)" and c: "owner c = w"
    and nl: "good w s \<Longrightarrow> live w s = []" and k: "kind (wrappers s ! w) = cb_kind c"
  shows "invar (set_timer w (Some (next_id s))
            (s\<lparr>next_id := Suc (next_id s),
               pending := pending s @ [\<lparr>tid = next_id s, due = D, cb = c\<rparr>]\<rparr>))"
    (is "invar ?s")
proof (rule invI)
  let ?n = "\<lparr>tid = next_id s, due = D, cb = c\<rparr>"
  have nx: "next_id ?s = Suc (next_id s)" and pd: "pending ?s = pending s @ [?n]"
    and ln: "length (wrappers ?s) = length (wrappers s)"
    by simp_all
  have tm: "timer (wrappers ?s ! w') = (if w' = w then Some (next_id s) else timer (wrappers s ! w'))"
    if "w' < length (wrappers s)" for w'
    using that by (simp add: set_timer_timer)
  have cd: "code ?s = code s" by simp
  note kd = codeD(2)[OF cd]
  have gd: "good w' ?s = good w' s" if "w' < length (wrappers s)" for w'
    using good_cong[OF cd that] .
  have fresh: "tid t \<noteq> next_id s" if "t \<in> set (pending s)" for t
    using taskD(2)[OF i that] by simp
  show "0 < next_id ?s" by simp
  show "distinct (map tid (pending ?s))"
  proof -
    have "next_id s \<notin> tid ` set (pending s)"
    proof
      assume "next_id s \<in> tid ` set (pending s)"
      then obtain t where "t \<in> set (pending s)" "tid t = next_id s" by auto
      with fresh[OF this(1)] show False by simp
    qed
    then show ?thesis using invD(2)[OF i] by (simp add: pd)
  qed
  show "wf_task ?s t" if "t \<in> set (pending ?s)" for t
  proof (cases "t \<in> set (pending s)")
    case True
    note d = taskD[OF i True]
    show ?thesis
      unfolding wf_task_def nx ln kd[OF d(3)] using d by simp
  next
    case False
    with that have "t = ?n" by (simp add: pd)
    then show ?thesis
      unfolding wf_task_def nx ln using invD(1)[OF i] w c k kd[OF w] by simp
  qed
  show "wf_timer ?s w'" if "w' < length (wrappers ?s)" for w'
  proof (rule wf_timerI)
    from that have w': "w' < length (wrappers s)" by simp
    fix h assume h: "timer (wrappers ?s ! w') = Some h"
    show "0 < h \<and> h < next_id ?s"
    proof (cases "w' = w")
      case True
      with h w have "h = next_id s" by (simp add: tm)
      with invD(1)[OF i] show ?thesis by simp
    next
      case False
      with h w' have "timer (wrappers s ! w') = Some h" by (simp add: tm)
      from timerD(1,2)[OF i w' this] show ?thesis by simp
    qed
    fix t assume t: "t \<in> set (pending ?s)" "tid t = h"
    show "owner (cb t) = w'"
    proof (cases "w' = w")
      case True
      with h w have e: "h = next_id s" by (simp add: tm)
      with t fresh have "t = ?n" by (auto simp: pd)
      with c True show ?thesis by simp
    next
      case False
      with h w' have o: "timer (wrappers s ! w') = Some h" by (simp add: tm)
      from timerD(2)[OF i w' o] t have "t \<in> set (pending s)" by (auto simp: pd)
      from timerD(3)[OF i w' o this t(2)] show ?thesis .
    qed
  qed
  show "tight ?s w'" if "w' < length (wrappers ?s)" "good w' ?s" for w'
  proof (rule tightI)
    from that have w': "w' < length (wrappers s)" by simp
    with that gd have g: "good w' s" by simp
    {
      fix t assume t: "t \<in> set (pending ?s)" "owner (cb t) = w'"
      show "timer (wrappers ?s ! w') = Some (tid t)"
      proof (cases "w' = w")
        case True
        with t no_live_owner[OF nl] g have "t = ?n" by (auto simp: pd)
        with True w show ?thesis by (simp add: tm)
      next
        case False
        with t c have "t \<in> set (pending s)" by (auto simp: pd)
        from tightD(1)[OF i w' g this t(2)] False w' show ?thesis by (simp add: tm)
      qed
    }
    fix h assume a: "kind (wrappers ?s ! w') = Throttle" "timer (wrappers ?s ! w') = Some h"
    show "h \<in> tid ` set (pending ?s)"
    proof (cases "w' = w")
      case True
      with a w have "h = next_id s" by (simp add: tm)
      then show ?thesis by (simp add: pd)
    next
      case False
      with a w' have "timer (wrappers s ! w') = Some h" "kind (wrappers s ! w') = Throttle"
        by (simp_all add: tm kd)
      from tightD(2)[OF i w' g this(2,1)] show ?thesis by (auto simp: pd)
    qed
  qed
qed

text \<open>\<open>clearTimeout(timer)\<close> in a debounce wrapper removes its live timer and only that.\<close>

lemma inv_clear:
  assumes i: "invar s" and w: "w < length (wrappers s)"
    and k: "kind (wrappers s ! w) = Debounce" and h: "timer (wrappers s ! w) = Some h"
  shows "invar (clearTimeout h s)" (is "invar ?s")
    and "live w (clearTimeout h s) = []"
    and "v \<noteq> w \<Longrightarrow> live v (clearTimeout h s) = live v s"
proof -
  have g: "good w s" using k by (simp add: good_def)
  have pd: "pending ?s = filter (\<lambda>t. tid t \<noteq> h) (pending s)"
    and nx: "next_id ?s = next_id s" and wr: "wrappers ?s = wrappers s"
    by (simp_all add: clearTimeout_def)
  have own: "owner (cb t) = w" if "t \<in> set (pending s)" "tid t = h" for t
    using timerD(3)[OF i w h that] .
  show "invar ?s"
  proof (rule invI)
    show "0 < next_id ?s" using invD(1)[OF i] by (simp add: nx)
    show "distinct (map tid (pending ?s))"
      using invD(2)[OF i] by (simp add: pd distinct_map_filter)
    show "wf_task ?s t" if "t \<in> set (pending ?s)" for t
      using invD(3)[OF i, of t] that by (simp add: pd wf_task_def nx wr)
    show "wf_timer ?s v" if "v < length (wrappers ?s)" for v
      using invD(4)[OF i, of v] that unfolding wf_timer_def nx wr pd by auto
    show "tight ?s v" if "v < length (wrappers ?s)" "good v ?s" for v
    proof (rule tightI)
      from that have v: "v < length (wrappers s)" and gv: "good v s"
        by (simp_all add: wr good_def uncalled_def)
      {
        fix t assume "t \<in> set (pending ?s)" "owner (cb t) = v"
        then have "t \<in> set (pending s)" "owner (cb t) = v" by (simp_all add: pd)
        from tightD(1)[OF i v gv this] show "timer (wrappers ?s ! v) = Some (tid t)"
          by (simp add: wr)
      }
      fix h' assume a: "kind (wrappers ?s ! v) = Throttle" "timer (wrappers ?s ! v) = Some h'"
      then have a': "kind (wrappers s ! v) = Throttle" "timer (wrappers s ! v) = Some h'"
        by (simp_all add: wr)
      from tightD(2)[OF i v gv a'] obtain t where t: "t \<in> set (pending s)" "tid t = h'" by auto
      from timerD(3)[OF i v a'(2) t] have o: "owner (cb t) = v" .
      have "tid t \<noteq> h"
      proof
        assume "tid t = h"
        from own[OF t(1) this] o a'(1) k show False by simp
      qed
      with t show "h' \<in> tid ` set (pending ?s)" by (auto simp: pd)
    qed
  qed
  have "tid t = h" if "t \<in> set (pending s)" "owner (cb t) = w" for t
    using tightD(1)[OF i w g that] h by simp
  then show "live w ?s = []" by (auto simp: live_def pd filter_empty_conv)
  assume "v \<noteq> w"
  then have "tid t \<noteq> h" if "t \<in> set (pending s)" "owner (cb t) = v" for t
    using own[OF that(1)] that(2) by auto
  then have "filter (\<lambda>t. owner (cb t) = v) (filter (\<lambda>t. tid t \<noteq> h) (pending s))
      = filter (\<lambda>t. owner (cb t) = v) (pending s)"
    by (auto intro!: filter_cong)
  then show "live v ?s = live v s" by (simp add: live_def pd)
qed

text \<open>Taking a task off the list when it fires.\<close>

lemma inv_unlist:
  assumes i: "invar s" and t: "t \<in> set (pending s)"
  shows "invar (set_timer (owner (cb t))
                 (if kind (wrappers s ! owner (cb t)) = Throttle then None
                  else timer (wrappers s ! owner (cb t)))
                 (s\<lparr>pending := filter (\<lambda>u. tid u \<noteq> tid t) (pending s)\<rparr>))"
    (is "invar ?s")
proof (rule invI)
  let ?w = "owner (cb t)"
  let ?x = "if kind (wrappers s ! ?w) = Throttle then None else timer (wrappers s ! ?w)"
  note d = taskD[OF i t]
  have pd: "pending ?s = filter (\<lambda>u. tid u \<noteq> tid t) (pending s)"
    and nx: "next_id ?s = next_id s" and ln: "length (wrappers ?s) = length (wrappers s)"
    by simp_all
  have cd: "code ?s = code s" by simp
  note kd = codeD(2)[OF cd]
  have tm: "timer (wrappers ?s ! v) = (if v = ?w then ?x else timer (wrappers s ! v))"
    if "v < length (wrappers s)" for v
    using that by (simp add: set_timer_timer)
  show "0 < next_id ?s" using invD(1)[OF i] by simp
  show "distinct (map tid (pending ?s))"
    using invD(2)[OF i] by (simp add: distinct_map_filter)
  show "wf_task ?s u" if "u \<in> set (pending ?s)" for u
  proof -
    from that have u: "u \<in> set (pending s)" by simp
    note e = taskD[OF i u]
    show ?thesis unfolding wf_task_def nx ln kd[OF e(3)] using e by simp
  qed
  show "wf_timer ?s v" if "v < length (wrappers ?s)" for v
  proof (rule wf_timerI)
    from that have v: "v < length (wrappers s)" by simp
    fix h assume "timer (wrappers ?s ! v) = Some h"
    with v have h: "timer (wrappers s ! v) = Some h"
      by (simp add: tm split: if_splits)
    from timerD(1,2)[OF i v h] show "0 < h \<and> h < next_id ?s" by simp
    fix u assume "u \<in> set (pending ?s)" "tid u = h"
    then have "u \<in> set (pending s)" "tid u = h" by simp_all
    from timerD(3)[OF i v h this] show "owner (cb u) = v" .
  qed
  show "tight ?s v" if "v < length (wrappers ?s)" "good v ?s" for v
  proof (rule tightI)
    from that have v: "v < length (wrappers s)" by simp
    with that good_cong[OF cd v] have g: "good v s" by simp
    {
      fix u assume "u \<in> set (pending ?s)" "owner (cb u) = v"
      then have u: "u \<in> set (pending s)" "owner (cb u) = v" "tid u \<noteq> tid t" by simp_all
      note a = tightD(1)[OF i v g u(1,2)]
      have "v \<noteq> ?w \<or> kind (wrappers s ! ?w) \<noteq> Throttle"
      proof (rule ccontr)
        assume "\<not> (v \<noteq> ?w \<or> kind (wrappers s ! ?w) \<noteq> Throttle)"
        then have e: "v = ?w" by simp
        from tightD(1)[OF i v g t e[symmetric]] a u(3) show False by simp
      qed
      with a v show "timer (wrappers ?s ! v) = Some (tid u)" by (auto simp: tm)
    }
    fix h assume a: "kind (wrappers ?s ! v) = Throttle" "timer (wrappers ?s ! v) = Some h"
    from a(1) v have kv: "kind (wrappers s ! v) = Throttle" by (simp add: kd)
    from a(2) v kv have ne: "v \<noteq> ?w" by (auto simp: tm)
    with a(2) v have h: "timer (wrappers s ! v) = Some h" by (simp add: tm)
    from tightD(2)[OF i v g kv h] obtain u where u: "u \<in> set (pending s)" "tid u = h" by auto
    have "tid u \<noteq> tid t"
    proof
      assume "tid u = tid t"
      with u have "tid t = h" by simp
      from timerD(3)[OF i v h t this] ne show False by simp
    qed
    with u show "h \<in> tid ` set (pending ?s)" by (auto simp: pd)
  qed
qed

subsection \<open>Calls of wrappers, also from inside wrapped functions\<close>

lemma view_eq:
  "view w s' = view w s \<longleftrightarrow>
     wrappers s' ! w = wrappers s ! w \<and> live w s' = live w s \<and> calls_of w s' = calls_of w s"
  by (simp add: view_def)

lemma orderlyD:
  assumes "orderly f" "invar s"
  shows "invar (snd (f v a s))" "now (snd (f v a s)) = now s" "stack (snd (f v a s)) = stack s"
    "code (snd (f v a s)) = code s"
    "uncalled w s \<Longrightarrow> w \<noteq> v \<Longrightarrow> view w (snd (f v a s)) = view w s"
  using assms unfolding orderly_def by blast+

lemma orderlyI:
  assumes "\<And>v a s. invar s \<Longrightarrow> invar (snd (f v a s))"
    "\<And>v a s. invar s \<Longrightarrow> now (snd (f v a s)) = now s"
    "\<And>v a s. invar s \<Longrightarrow> stack (snd (f v a s)) = stack s"
    "\<And>v a s. invar s \<Longrightarrow> code (snd (f v a s)) = code s"
    "\<And>v a s w. invar s \<Longrightarrow> uncalled w s \<Longrightarrow> w \<noteq> v \<Longrightarrow> view w (snd (f v a s)) = view w s"
  shows "orderly f"
  unfolding orderly_def using assms by blast

lemma orderly_overflow: "orderly overflow"
  by (simp add: orderly_def overflow_def)

lemma nested_Cons:
  "snd (nested f ((v, a) # cs) s)
     = (if fst (f v a s) = Raises then snd (f v a s) else snd (nested f cs (snd (f v a s))))"
  by (simp split: prod.splits fn_result.splits)

lemma nested_orderly:
  assumes "orderly f" "invar s"
  shows "invar (snd (nested f cs s)) \<and> now (snd (nested f cs s)) = now s
    \<and> stack (snd (nested f cs s)) = stack s \<and> code (snd (nested f cs s)) = code s
    \<and> (\<forall>w. uncalled w s \<longrightarrow> w \<notin> fst ` set cs \<longrightarrow> view w (snd (nested f cs s)) = view w s)"
  using assms(2)
proof (induction cs arbitrary: s)
  case Nil
  then show ?case by simp
next
  case (Cons c cs)
  obtain v a where c: "c = (v, a)" by (cases c)
  let ?s1 = "snd (f v a s)"
  note d = orderlyD[OF assms(1) Cons.prems, where v = v and a = a]
  note ih = Cons.IH[OF d(1)]
  have u: "uncalled w ?s1 = uncalled w s" for w by (rule uncalled_cong[OF d(4)])
  show ?case
  proof (cases "fst (f v a s) = Raises")
    case True
    then have "snd (nested f (c # cs) s) = ?s1" unfolding c nested_Cons by simp
    with d show ?thesis by (simp add: c)
  next
    case False
    then have e: "snd (nested f (c # cs) s) = snd (nested f cs ?s1)"
      unfolding c nested_Cons by simp
    have "view w (snd (nested f cs ?s1)) = view w s" if "uncalled w s" "w \<notin> fst ` set (c # cs)" for w
    proof -
      from that have "w \<noteq> v" "w \<notin> fst ` set cs" by (simp_all add: c)
      with ih u that(1) d(5)[OF that(1)] show ?thesis by simp
    qed
    with ih d(2,3,4) show ?thesis unfolding e by simp
  qed
qed

lemma invoke_snd:
  "snd (invoke f v a s)
     = snd (nested f (inner (fn (wrappers s ! v) a)) (s\<lparr>calls := calls s @ [(v, a)]\<rparr>))"
  by (simp add: invoke_def Let_def split: prod.splits fn_result.splits)


lemma invoke_orderly:
  assumes o: "orderly f" and i: "invar s"
  shows "invar (snd (invoke f v a s))" "now (snd (invoke f v a s)) = now s"
    "stack (snd (invoke f v a s)) = stack s" "code (snd (invoke f v a s)) = code s"
    "v < length (wrappers s) \<Longrightarrow> uncalled w s \<Longrightarrow> w \<noteq> v \<Longrightarrow>
       view w (snd (invoke f v a s)) = view w s"
    "v < length (wrappers s) \<Longrightarrow> uncalled v s \<Longrightarrow>
       wrappers (snd (invoke f v a s)) ! v = wrappers s ! v
       \<and> live v (snd (invoke f v a s)) = live v s
       \<and> calls_of v (snd (invoke f v a s)) = calls_of v s @ [a]"
proof -
  let ?s1 = "s\<lparr>calls := calls s @ [(v, a)]\<rparr>"
  let ?cs = "inner (fn (wrappers s ! v) a)"
  have i1: "invar ?s1" using i by simp
  note n = nested_orderly[OF o i1, of ?cs]
  from n show "invar (snd (invoke f v a s))" "now (snd (invoke f v a s)) = now s"
    "stack (snd (invoke f v a s)) = stack s" "code (snd (invoke f v a s)) = code s"
    by (simp_all add: invoke_snd)
  {
    assume v: "v < length (wrappers s)" and u: "uncalled w s" and ne: "w \<noteq> v"
    from uncalledD[OF u v] have "w \<notin> fst ` set ?cs" .
    with n u have "view w (snd (invoke f v a s)) = view w ?s1" by (simp add: invoke_snd)
    with ne show "view w (snd (invoke f v a s)) = view w s" by (simp add: view_def)
  }
  assume v: "v < length (wrappers s)" and u: "uncalled v s"
  from uncalledD[OF u v] have "v \<notin> fst ` set ?cs" .
  with n u have "view v (snd (invoke f v a s)) = view v ?s1" by (simp add: invoke_snd)
  then show "wrappers (snd (invoke f v a s)) ! v = wrappers s ! v
       \<and> live v (snd (invoke f v a s)) = live v s
       \<and> calls_of v (snd (invoke f v a s)) = calls_of v s @ [a]"
    by (simp add: view_def)
qed

lemma throttled_drop:
  "truthy (timer (wrappers s ! w)) \<Longrightarrow> throttled f w a s = (Normal, s)"
  by (simp add: throttled_def)

lemma throttled_raise:
  "\<not> truthy (timer (wrappers s ! w)) \<Longrightarrow> fst (invoke f w a s) = Raises \<Longrightarrow>
     throttled f w a s = (Raises, snd (invoke f w a s))"
  by (cases "invoke f w a s") (simp add: throttled_def)

lemma throttled_invoke:
  "\<not> truthy (timer (wrappers s ! w)) \<Longrightarrow> fst (invoke f w a s) = Normal \<Longrightarrow>
     throttled f w a s =
       (Normal, set_timer w (Some (next_id (snd (invoke f w a s))))
          ((snd (invoke f w a s))
             \<lparr>next_id := Suc (next_id (snd (invoke f w a s))),
              pending := pending (snd (invoke f w a s)) @
                [\<lparr>tid = next_id (snd (invoke f w a s)),
                  due = now (snd (invoke f w a s))
                        + host_delay (delay (wrappers (snd (invoke f w a s)) ! w)),
                  cb = ClearTimer w\<rparr>]\<rparr>))"
  by (cases "invoke f w a s") (simp add: throttled_def setTimeout_def)

lemma view_schedule:
  "w \<noteq> owner c \<Longrightarrow>
     view w (set_timer (owner c) x (s\<lparr>next_id := n, pending := pending s @ [\<lparr>tid = h, due = D, cb = c\<rparr>]\<rparr>))
       = view w s"
  by (simp add: view_def set_timer_other live_def calls_of_def)

lemma throttled_orderly:
  assumes o: "orderly f" and i: "invar s" and v: "v < length (wrappers s)"
    and k: "kind (wrappers s ! v) = Throttle"
  shows "invar (snd (throttled f v a s))" "now (snd (throttled f v a s)) = now s"
    "stack (snd (throttled f v a s)) = stack s" "code (snd (throttled f v a s)) = code s"
    "uncalled w s \<Longrightarrow> w \<noteq> v \<Longrightarrow> view w (snd (throttled f v a s)) = view w s"
proof -
  let ?s1 = "snd (invoke f v a s)"
  let ?s2 = "set_timer v (Some (next_id ?s1))
          (?s1\<lparr>next_id := Suc (next_id ?s1),
              pending := pending ?s1 @
                [\<lparr>tid = next_id ?s1, due = now ?s1 + host_delay (delay (wrappers ?s1 ! v)),
                  cb = ClearTimer v\<rparr>]\<rparr>)"
  note d = invoke_orderly[OF o i, where v = v and a = a]
  have v1: "v < length (wrappers ?s1)" using codeD(1)[OF d(4)] v by simp
  have k1: "kind (wrappers ?s1 ! v) = Throttle" using codeD(2)[OF d(4) v] k by simp
  have c: "throttled f v a s = (Normal, s) \<or> throttled f v a s = (Raises, ?s1)
      \<or> (\<not> truthy (timer (wrappers s ! v)) \<and> throttled f v a s = (Normal, ?s2))"
    using throttled_drop[of s v f a] throttled_raise[of s v f a] throttled_invoke[of s v f a]
    by (cases "fst (invoke f v a s)") auto
  have i2: "invar ?s2" if f: "\<not> truthy (timer (wrappers s ! v))"
  proof (rule inv_schedule[OF d(1) v1])
    show "owner (ClearTimer v) = v" by simp
    show "kind (wrappers ?s1 ! v) = cb_kind (ClearTimer v)" using k1 by simp
    assume "good v ?s1"
    with k1 have "uncalled v ?s1" by (simp add: good_def)
    then have u: "uncalled v s" by (simp add: uncalled_cong[OF d(4)])
    then have "good v s" by (simp add: good_def)
    from falsy_no_live[OF i v this f] d(6)[OF v u] show "live v ?s1 = []" by simp
  qed
  have c2: "code ?s2 = code s" using d(4) by simp
  have w2: "view w ?s2 = view w s" if "uncalled w s" "w \<noteq> v" for w
    using view_schedule[of w "ClearTimer v" "Some (next_id ?s1)" ?s1] d(5)[OF v that] that(2)
    by simp
  from c i d(1) i2 show "invar (snd (throttled f v a s))" by auto
  from c d(2) show "now (snd (throttled f v a s)) = now s" by auto
  from c d(3) show "stack (snd (throttled f v a s)) = stack s" by auto
  from c d(4) c2 show "code (snd (throttled f v a s)) = code s" by auto
  assume "uncalled w s" "w \<noteq> v"
  from c w2[OF this] d(5)[OF v this]
  show "view w (snd (throttled f v a s)) = view w s" by auto
qed

lemma debounced_eq:
  "debounced w a s =
     (Normal, set_timer w (Some (next_id s))
        (s\<lparr>next_id := Suc (next_id s),
           pending :=
             (if truthy (timer (wrappers s ! w))
              then filter (\<lambda>t. tid t \<noteq> the (timer (wrappers s ! w))) (pending s)
              else pending s)
             @ [\<lparr>tid = next_id s, due = now s + host_delay (delay (wrappers s ! w)),
                 cb = InvokeFn w a\<rparr>]\<rparr>))"
  by (simp add: debounced_def setTimeout_def clearTimeout_def Let_def)

text \<open>The state of a debounce wrapper's call after \<open>if (timer) clearTimeout(timer)\<close>.\<close>

lemma debounced_cleared:
  assumes i: "invar s" and w: "w < length (wrappers s)" and k: "kind (wrappers s ! w) = Debounce"
  shows "invar (s\<lparr>pending := (if truthy (timer (wrappers s ! w))
              then filter (\<lambda>t. tid t \<noteq> the (timer (wrappers s ! w))) (pending s)
              else pending s)\<rparr>)" (is "invar ?s1")
    and "live w (s\<lparr>pending := (if truthy (timer (wrappers s ! w))
              then filter (\<lambda>t. tid t \<noteq> the (timer (wrappers s ! w))) (pending s)
              else pending s)\<rparr>) = []"
    and "v \<noteq> w \<Longrightarrow> live v (s\<lparr>pending := (if truthy (timer (wrappers s ! w))
              then filter (\<lambda>t. tid t \<noteq> the (timer (wrappers s ! w))) (pending s)
              else pending s)\<rparr>) = live v s"
proof -
  have g: "good w s" using k by (simp add: good_def)
  have "invar ?s1 \<and> live w ?s1 = [] \<and> (v \<noteq> w \<longrightarrow> live v ?s1 = live v s)"
  proof (cases "truthy (timer (wrappers s ! w))")
    case True
    then obtain h where h: "timer (wrappers s ! w) = Some h"
      by (auto simp: truthy_def split: option.splits)
    have "?s1 = clearTimeout h s" using True h by (simp add: clearTimeout_def)
    with inv_clear(1,2)[OF i w k h] inv_clear(3)[OF i w k h, of v] show ?thesis by simp
  next
    case False
    then have "?s1 = s" by simp
    with i falsy_no_live[OF i w g False] show ?thesis by simp
  qed
  then show "invar ?s1" "live w ?s1 = []" "v \<noteq> w \<Longrightarrow> live v ?s1 = live v s" by simp_all
qed

lemma debounced_orderly:
  assumes i: "invar s" and v: "v < length (wrappers s)" and k: "kind (wrappers s ! v) = Debounce"
  shows "invar (snd (debounced v a s))" "now (snd (debounced v a s)) = now s"
    "stack (snd (debounced v a s)) = stack s" "code (snd (debounced v a s)) = code s"
    "w \<noteq> v \<Longrightarrow> view w (snd (debounced v a s)) = view w s"
proof -
  let ?p = "if truthy (timer (wrappers s ! v))
              then filter (\<lambda>t. tid t \<noteq> the (timer (wrappers s ! v))) (pending s)
              else pending s"
  let ?s1 = "s\<lparr>pending := ?p\<rparr>"
  note c = debounced_cleared[OF i v k]
  have "invar (set_timer v (Some (next_id ?s1))
            (?s1\<lparr>next_id := Suc (next_id ?s1),
               pending := pending ?s1 @ [\<lparr>tid = next_id ?s1,
                  due = now s + host_delay (delay (wrappers s ! v)), cb = InvokeFn v a\<rparr>]\<rparr>))"
    by (rule inv_schedule) (simp_all add: c v k)
  then show "invar (snd (debounced v a s))" by (simp add: debounced_eq)
  show "now (snd (debounced v a s)) = now s" "stack (snd (debounced v a s)) = stack s"
    "code (snd (debounced v a s)) = code s"
    by (simp_all add: debounced_eq)
  assume ne: "w \<noteq> v"
  have "view w (set_timer (owner (InvokeFn v a)) (Some (next_id s))
            (?s1\<lparr>next_id := Suc (next_id s),
               pending := pending ?s1 @ [\<lparr>tid = next_id s,
                  due = now s + host_delay (delay (wrappers s ! v)), cb = InvokeFn v a\<rparr>]\<rparr>))
      = view w ?s1"
    by (rule view_schedule) (simp add: ne)
  also have "\<dots> = view w s" using c(3)[OF ne] by (simp add: view_def)
  finally show "view w (snd (debounced v a s)) = view w s" by (simp add: debounced_eq)
qed

lemma orderly_dispatch:
  assumes "orderly f"
  shows "orderly (dispatch f)"
proof (rule orderlyI)
  fix v a and s :: "'a system"
  assume i: "invar s"
  note t = throttled_orderly[OF assms i, where v = v and a = a]
  note d = debounced_orderly[OF i, where v = v and a = a]
  show "invar (snd (dispatch f v a s))"
    using i t(1) d(1) by (simp add: dispatch_def split: kind.splits)
  show "now (snd (dispatch f v a s)) = now s"
    using t(2) d(2) by (simp add: dispatch_def split: kind.splits)
  show "stack (snd (dispatch f v a s)) = stack s"
    using t(3) d(3) by (simp add: dispatch_def split: kind.splits)
  show "code (snd (dispatch f v a s)) = code s"
    using t(4) d(4) by (simp add: dispatch_def split: kind.splits)
  fix w assume "uncalled w s" "w \<noteq> v"
  then show "view w (snd (dispatch f v a s)) = view w s"
    using t(5)[of w] d(5)[of w] by (simp add: dispatch_def split: kind.splits)
qed

lemma orderly_call_at: "orderly (call_at k)"
  by (induction k) (simp_all add: orderly_overflow orderly_dispatch)

lemmas call_atD = orderlyD[OF orderly_call_at]

lemma inv_call_wrapper: "invar s \<Longrightarrow> invar (snd (call_wrapper w a s))"
  by (simp add: call_wrapper_def call_atD(1))

subsection \<open>Firing a timer\<close>

lemma set_timer_same: "set_timer w (timer (wrappers s ! w)) s = s"
  by (simp add: set_timer_def)

lemma inv_cong:
  "next_id s' = next_id s \<Longrightarrow> pending s' = pending s \<Longrightarrow> wrappers s' = wrappers s \<Longrightarrow>
     invar s' = invar s"
  by (simp add: invar_def wf_task_def wf_timer_def tight_def good_def uncalled_def)

lemma inv_unlisted:
  assumes "invar s" "t \<in> set (pending s)" "cb t = InvokeFn w a"
  shows "invar (s\<lparr>now := n, pending := filter (\<lambda>u. tid u \<noteq> tid t) (pending s)\<rparr>)"
proof -
  let ?s0 = "s\<lparr>pending := filter (\<lambda>u. tid u \<noteq> tid t) (pending s)\<rparr>"
  from taskD(4)[OF assms(1,2)] assms(3) have k: "kind (wrappers s ! w) = Debounce" by simp
  have "set_timer w (timer (wrappers ?s0 ! w)) ?s0 = ?s0" by (rule set_timer_same)
  with inv_unlist[OF assms(1,2)] assms(3) k have "invar ?s0" by simp
  moreover have "invar (s\<lparr>now := n, pending := filter (\<lambda>u. tid u \<noteq> tid t) (pending s)\<rparr>)
      = invar ?s0"
    by (rule inv_cong) simp_all
  ultimately show ?thesis by simp
qed

lemma fire_ClearTimer:
  "cb t = ClearTimer w \<Longrightarrow>
     fire t s = (set_timer w None (s\<lparr>pending := filter (\<lambda>u. tid u \<noteq> tid t) (pending s)\<rparr>))
                  \<lparr>now := max (now s) (due t)\<rparr>"
  by (simp add: fire_def set_timer_def)

lemma fire_InvokeFn:
  "cb t = InvokeFn w a \<Longrightarrow>
     fire t s = snd (invoke (call_at (stack s)) w a
                  (s\<lparr>now := max (now s) (due t), pending := filter (\<lambda>u. tid u \<noteq> tid t) (pending s)\<rparr>))"
  by (simp add: fire_def)

lemma inv_fire:
  assumes i: "invar s" and t: "t \<in> set (pending s)"
  shows "invar (fire t s)"
proof (cases "cb t")
  case (ClearTimer w)
  from taskD(4)[OF i t] ClearTimer have "kind (wrappers s ! w) = Throttle" by simp
  with inv_unlist[OF i t] ClearTimer show ?thesis by (simp add: fire_ClearTimer)
next
  case (InvokeFn w a)
  from inv_unlisted[OF i t InvokeFn] show ?thesis
    by (simp add: fire_InvokeFn[OF InvokeFn] invoke_orderly(1)[OF orderly_call_at])
qed






subsection \<open>Letting time pass\<close>

lemma earliest_mem: "earliest ts = Some u \<Longrightarrow> u \<in> set ts"
  by (induction ts arbitrary: u) (auto split: option.splits if_splits)

lemma earliest_None: "earliest ts = None \<longleftrightarrow> ts = []"
  by (cases ts) (auto split: option.splits)

lemma advance_none:
  "\<forall>t \<in> set (pending s). target < due t \<Longrightarrow> advance target s = s\<lparr>now := max (now s) target\<rparr>"
proof -
  assume "\<forall>t \<in> set (pending s). target < due t"
  then have "filter (\<lambda>t. due t \<le> target) (pending s) = []"
    by (auto simp: filter_empty_conv)
  then show ?thesis by (subst advance.simps) simp
qed

text \<open>
  Hoare-style rule for \<open>advance\<close>: \<open>P\<close> holds at the start and after every firing of a due
  task; \<open>Q\<close> follows once nothing is due and the clock is set.
\<close>

lemma advance_rule:
  assumes "P s"
    and "\<And>s t. P s \<Longrightarrow> t \<in> set (pending s) \<Longrightarrow> due t \<le> target \<Longrightarrow> P (fire t s)"
    and "\<And>s. P s \<Longrightarrow> \<forall>t \<in> set (pending s). target < due t \<Longrightarrow> Q (s\<lparr>now := max (now s) target\<rparr>)"
  shows "Q (advance target s)"
  using assms
proof (induction target s rule: advance.induct)
  case (1 target s)
  show ?case
  proof (cases "earliest (filter (\<lambda>t. due t \<le> target) (pending s))")
    case None
    then have "filter (\<lambda>t. due t \<le> target) (pending s) = []" by (simp add: earliest_None)
    then have a: "\<forall>t \<in> set (pending s). target < due t" by (auto simp: filter_empty_conv)
    from "1.prems"(3)[OF "1.prems"(1) a] show ?thesis by (simp add: advance_none[OF a])
  next
    case (Some t)
    from earliest_mem[OF Some] have t: "t \<in> set (pending s)" "due t \<le> target" by simp_all
    have "Q (advance target (fire t s))"
      by (rule "1.IH"[OF Some "1.prems"(2)[OF "1.prems"(1) t] "1.prems"(2,3)])
    then show ?thesis using Some by (subst advance.simps) simp
  qed
qed

lemma inv_advance: "invar s \<Longrightarrow> invar (advance target s)"
  by (rule advance_rule[where P = invar]) (simp_all add: inv_fire)



lemma inv_exec: "invar s \<Longrightarrow> invar (exec e s)"
  by (cases e) (simp_all add: inv_throttle inv_debounce inv_call_wrapper elapse_def inv_advance)

lemma run_Nil [simp]: "run [] s = s"
  by (simp add: run_def)

lemma run_Cons [simp]: "run (e # es) s = run es (exec e s)"
  by (simp add: run_def)

lemma run_append [simp]: "run (es @ fs) s = run fs (run es s)"
  by (simp add: run_def)

lemma burst_Nil [simp]: "burst w [] = []"
  by (simp add: burst_def)

lemma burst_Cons [simp]: "burst w ((d, a) # gs) = Elapse d # Call w a # burst w gs"
  by (simp add: burst_def)

lemma inv_run_from: "invar s \<Longrightarrow> invar (run evs s)"
  by (induction evs arbitrary: s) (simp_all add: inv_exec)







subsection \<open>\<open>throttle\<close>\<close>








subsection \<open>\<open>debounce\<close>\<close>






subsection \<open>Evaluating the examples\<close>



subsection \<open>The claims about \<open>throttle\<close> and \<open>debounce\<close>\<close>







subsection \<open>One timer per wrapper, and a throwing \<open>fn\<close>\<close>










end
